theory Spec2Isabelle
  imports Complex_Main "HOL-Library.Word" "HOL-Library.Multiset" "HOL-Library.Product_Lexorder"
begin

section \<open>Multi-resolution hierarchy of instant-meshes (hierarchy.cpp)\<close>

text \<open>
  A shallow embedding of \<^verbatim>\<open>src/hierarchy.cpp\<close>.  Conventions:
  \<^item> \<^verbatim>\<open>Float\<close> is modelled by \<^typ>\<open>real\<close>: every statement about areas, weights and
    vectors is a statement in exact arithmetic;
  \<^item> \<^verbatim>\<open>uint32_t\<close> vertex indices and counts are \<^typ>\<open>nat\<close>; the sentinel \<^verbatim>\<open>INVALID\<close> is
    the largest 32-bit value, and the statements that depend on the sentinel assume that
    real vertex indices differ from it;
  \<^item> the byte-encoded colours of the parallel colouring are \<^typ>\<open>8 word\<close>;
  \<^item> a \<^verbatim>\<open>MatrixXf\<close> with three rows is the list of its columns, a \<^verbatim>\<open>VectorXf\<close> a list of
    reals, the CSR adjacency \<^verbatim>\<open>Link **\<close> the list of its rows;
  \<^item> a \<^verbatim>\<open>tbb::parallel_for\<close> whose iterations write disjoint slots is the sequential
    loop over its range.
\<close>

subsection \<open>Vectors\<close>

type_synonym Float = real
type_synonym Vector3f = "real \<times> real \<times> real"
type_synonym MatrixXf = "Vector3f list"
type_synonym VectorXf = "real list"

definition Zero3 :: Vector3f where
  "Zero3 = (0, 0, 0)"

definition UnitX :: Vector3f where
  "UnitX = (1, 0, 0)"

fun vadd :: "Vector3f \<Rightarrow> Vector3f \<Rightarrow> Vector3f" where
  "vadd (a, b, c) (x, y, z) = (a + x, b + y, c + z)"

fun vsub :: "Vector3f \<Rightarrow> Vector3f \<Rightarrow> Vector3f" where
  "vsub (a, b, c) (x, y, z) = (a - x, b - y, c - z)"

fun smul :: "Vector3f \<Rightarrow> real \<Rightarrow> Vector3f" where
  "smul (a, b, c) s = (a * s, b * s, c * s)"

fun sdiv :: "Vector3f \<Rightarrow> real \<Rightarrow> Vector3f" where
  "sdiv (a, b, c) s = (a / s, b / s, c / s)"

fun dot :: "Vector3f \<Rightarrow> Vector3f \<Rightarrow> real" where
  "dot (a, b, c) (x, y, z) = a * x + b * y + c * z"

definition squaredNorm :: "Vector3f \<Rightarrow> real" where
  "squaredNorm v = dot v v"

definition norm3 :: "Vector3f \<Rightarrow> real" where
  "norm3 v = sqrt (squaredNorm v)"

text \<open>\<^verbatim>\<open>q.normalize()\<close>: division of the vector by its Euclidean norm.\<close>

definition normalize_v :: "Vector3f \<Rightarrow> Vector3f" where
  "normalize_v v = sdiv v (norm3 v)"

subsection \<open>Errors, constants and collaborators\<close>

text \<open>
  The two \<^verbatim>\<open>std::runtime_error\<close>s of the file, under the names the specification gives
  them: "Ran out of colors during graph coloring!" and "Unsupported symmetry!".
\<close>

datatype error = ColoringExhausted | UnsupportedSymmetry

text \<open>
  Modelled from the spec: \<^verbatim>\<open>INVALID\<close> is defined in a header that is not part of the
  sources; it is the "sentinel index denoting no such fine parent", a \<^verbatim>\<open>uint32_t\<close>
  that is no vertex index: the largest 32-bit value.
\<close>

definition INVALID :: nat where
  "INVALID = 4294967295"

text \<open>
  The compatibility operators of \<^verbatim>\<open>field.h\<close> are opaque collaborators; the functions of
  this file take them as a parameter.
\<close>

type_synonym compat_orientation =
  "Vector3f \<Rightarrow> Vector3f \<Rightarrow> Vector3f \<Rightarrow> Vector3f \<Rightarrow> Vector3f \<times> Vector3f"

type_synonym compat_position =
  "Vector3f \<Rightarrow> Vector3f \<Rightarrow> Vector3f \<Rightarrow> Vector3f \<Rightarrow>
   Vector3f \<Rightarrow> Vector3f \<Rightarrow> Vector3f \<Rightarrow> Vector3f \<Rightarrow> real \<Rightarrow> real \<Rightarrow> Vector3f \<times> Vector3f"

record field_ops =
  compat_orientation_extrinsic_2 :: compat_orientation
  compat_orientation_extrinsic_4 :: compat_orientation
  compat_orientation_extrinsic_6 :: compat_orientation
  compat_position_extrinsic_3 :: compat_position
  compat_position_extrinsic_4 :: compat_position

subsection \<open>Adjacency and the hierarchy object\<close>

text \<open>
  A \<^verbatim>\<open>Link\<close> carries a neighbour id and a weight (its ancillary integer-variable payload,
  which \<^verbatim>\<open>Link(id, weight)\<close> clears, plays no role in this file).
\<close>

datatype Link = Link (link_id: nat) (link_weight: real)

type_synonym AdjacencyMatrix = "Link list list"

record hierarchy =
  mAdj :: "AdjacencyMatrix list"
  mV :: "MatrixXf list"
  mN :: "MatrixXf list"
  mA :: "VectorXf list"
  mQ :: "MatrixXf list"
  mO :: "MatrixXf list"
  mCQ :: "MatrixXf list"
  mCQw :: "VectorXf list"
  mCO :: "MatrixXf list"
  mCOw :: "VectorXf list"
  mToUpper :: "(nat \<times> nat) list list"
  mToLower :: "nat list list"
  mPhases :: "nat list list list"
  mTotalSize :: nat
  mScale :: real
  mIterationsQ :: int
  mIterationsO :: int
  mFrozenQ :: bool
  mFrozenO :: bool

text \<open>
  Modelled from the spec: the accessors \<^verbatim>\<open>levels()\<close> and \<^verbatim>\<open>size(l)\<close> are declared in
  \<^verbatim>\<open>hierarchy.h\<close>, which is not part of the sources.  The level stack has one position
  array per level, and \<^verbatim>\<open>n_l\<close> is the length of \<^verbatim>\<open>V[l]\<close>.
\<close>

definition levels :: "hierarchy \<Rightarrow> nat" where
  "levels h = length (mV h)"

definition size_of :: "hierarchy \<Rightarrow> nat \<Rightarrow> nat" where
  "size_of h l = length (mV h ! l)"

text \<open>
  Eigen's \<^verbatim>\<open>resize\<close> keeps the coefficients when the size does not change and leaves them
  uninitialised otherwise; the uninitialised content is the parameter \<open>fresh\<close>.
\<close>

definition resize :: "'a \<Rightarrow> nat \<Rightarrow> 'a list \<Rightarrow> 'a list" where
  "resize fresh n xs = (if length xs = n then xs else replicate n fresh)"

subsection \<open>clearConstraints\<close>

definition clearConstraints_level :: "Vector3f \<Rightarrow> nat \<Rightarrow> hierarchy \<Rightarrow> hierarchy" where
  "clearConstraints_level fresh i h =
     h\<lparr> mCQ := (mCQ h)[i := resize fresh (size_of h i) (mCQ h ! i)],
        mCO := (mCO h)[i := resize fresh (size_of h i) (mCO h ! i)],
        mCQw := (mCQw h)[i := replicate (size_of h i) 0],
        mCOw := (mCOw h)[i := replicate (size_of h i) 0] \<rparr>"

definition clearConstraints :: "Vector3f \<Rightarrow> hierarchy \<Rightarrow> (error + unit) \<times> hierarchy" where
  "clearConstraints fresh h =
     (if levels h = 0 then (Inr (), h)
      else (Inr (), fold (clearConstraints_level fresh) [0..<levels h] h))"

subsection \<open>propagateSolution\<close>

text \<open>
  The body of the inner loop for the vertex \<open>i\<close> of level \<open>l + 1\<close>: the vector \<open>q\<close> it
  computes, and the store \<^verbatim>\<open>Q_next.col(i) = q\<close>.  \<open>rcp\<close> is the constant \<^verbatim>\<open>RCPOVERFLOW\<close>,
  defined in a header that is not part of the sources.
\<close>

definition coarse_tangent ::
  "compat_orientation \<Rightarrow> real \<Rightarrow> hierarchy \<Rightarrow> nat \<Rightarrow> nat \<Rightarrow> Vector3f" where
  "coarse_tangent compat_orient rcp h l i =
     (let upper = mToUpper h ! l ! i;
          q0 = mQ h ! l ! fst upper;
          n0 = mN h ! l ! fst upper;
          q = (if snd upper \<noteq> INVALID then
                 (let q1 = mQ h ! l ! snd upper;
                      n1 = mN h ! l ! snd upper;
                      result = compat_orient q0 n0 q1 n1
                  in vadd (fst result) (snd result))
               else q0);
          n = mN h ! (l + 1) ! i;
          q = vsub q (smul n (dot n q));
          q = (if squaredNorm q > rcp then normalize_v q else q)
      in q)"

definition propagateSolution_vertex ::
  "compat_orientation \<Rightarrow> real \<Rightarrow> nat \<Rightarrow> nat \<Rightarrow> hierarchy \<Rightarrow> hierarchy" where
  "propagateSolution_vertex compat_orient rcp l i h =
     h\<lparr> mQ := (mQ h)[l + 1 := (mQ h ! (l + 1))[i := coarse_tangent compat_orient rcp h l i]] \<rparr>"

definition propagateSolution_level ::
  "compat_orientation \<Rightarrow> real \<Rightarrow> nat \<Rightarrow> hierarchy \<Rightarrow> hierarchy" where
  "propagateSolution_level compat_orient rcp l h =
     fold (propagateSolution_vertex compat_orient rcp l) [0..<size_of h (l + 1)] h"

definition propagateSolution_levels ::
  "compat_orientation \<Rightarrow> real \<Rightarrow> hierarchy \<Rightarrow> hierarchy" where
  "propagateSolution_levels compat_orient rcp h =
     fold (propagateSolution_level compat_orient rcp) [0..<levels h - 1] h"

text \<open>
  The selection of the orientation operator, the same chain in \<^verbatim>\<open>propagateSolution\<close> and
  in \<^verbatim>\<open>propagateConstraints\<close>; \<open>None\<close> is the \<^verbatim>\<open>throw\<close> of the last \<^verbatim>\<open>else\<close>.
\<close>

definition select_orient :: "field_ops \<Rightarrow> int \<Rightarrow> compat_orientation option" where
  "select_orient F rosy =
     (if rosy = 2 then Some (compat_orientation_extrinsic_2 F)
      else if rosy = 4 then Some (compat_orientation_extrinsic_4 F)
      else if rosy = 6 then Some (compat_orientation_extrinsic_6 F)
      else None)"

definition propagateSolution ::
  "field_ops \<Rightarrow> real \<Rightarrow> int \<Rightarrow> hierarchy \<Rightarrow> (error + unit) \<times> hierarchy" where
  "propagateSolution F rcp rosy h =
     (case select_orient F rosy of
        None \<Rightarrow> (Inl UnsupportedSymmetry, h)
      | Some compat_orient \<Rightarrow> (Inr (), propagateSolution_levels compat_orient rcp h))"

subsection \<open>propagateConstraints\<close>

text \<open>The direction constraint of a coarse vertex, before projection.\<close>

definition combine_cq ::
  "compat_orientation \<Rightarrow> hierarchy \<Rightarrow> nat \<Rightarrow> nat \<times> nat \<Rightarrow> Vector3f \<times> real" where
  "combine_cq compat_orient h l upper =
     (let N = mN h ! l; CQ = mCQ h ! l; CQw = mCQw h ! l;
          has_cq0 = (CQw ! fst upper \<noteq> 0);
          has_cq1 = (snd upper \<noteq> INVALID \<and> CQw ! snd upper \<noteq> 0)
      in if has_cq0 \<and> \<not> has_cq1 then (CQ ! fst upper, CQw ! fst upper)
         else if has_cq1 \<and> \<not> has_cq0 then (CQ ! snd upper, CQw ! snd upper)
         else if has_cq1 \<and> has_cq0 then
           (let result = compat_orient (CQ ! fst upper) (N ! fst upper)
                                       (CQ ! snd upper) (N ! snd upper)
            in (vadd (smul (fst result) (CQw ! fst upper))
                     (smul (snd result) (CQw ! snd upper)),
                CQw ! fst upper + CQw ! snd upper))
         else (Zero3, 0))"

text \<open>The position constraint of a coarse vertex, before projection.\<close>

definition combine_co ::
  "compat_position \<Rightarrow> hierarchy \<Rightarrow> nat \<Rightarrow> nat \<times> nat \<Rightarrow> Vector3f \<times> real" where
  "combine_co compat_pos h l upper =
     (let N = mN h ! l; V = mV h ! l; CQ = mCQ h ! l; CO = mCO h ! l; COw = mCOw h ! l;
          scale = mScale h; inv_scale = 1 / mScale h;
          has_co0 = (COw ! fst upper \<noteq> 0);
          has_co1 = (snd upper \<noteq> INVALID \<and> COw ! snd upper \<noteq> 0)
      in if has_co0 \<and> \<not> has_co1 then (CO ! fst upper, COw ! fst upper)
         else if has_co1 \<and> \<not> has_co0 then (CO ! snd upper, COw ! snd upper)
         else if has_co1 \<and> has_co0 then
           (let result = compat_pos
                  (V ! fst upper) (N ! fst upper) (CQ ! fst upper) (CO ! fst upper)
                  (V ! snd upper) (N ! snd upper) (CQ ! snd upper) (CO ! snd upper)
                  scale inv_scale;
                cow = COw ! fst upper + COw ! snd upper
            in (sdiv (vadd (smul (fst result) (COw ! fst upper))
                           (smul (snd result) (COw ! snd upper))) cow,
                cow))
         else (Zero3, 0))"

definition clamp_weight :: "real \<Rightarrow> real" where
  "clamp_weight w = (if w > 0 then 1 else w)"

text \<open>The four values the loop body computes for the vertex \<open>i\<close> of level \<open>l + 1\<close>.\<close>

definition coarse_constraint ::
  "compat_orientation \<Rightarrow> compat_position \<Rightarrow> real \<Rightarrow> hierarchy \<Rightarrow> nat \<Rightarrow> nat \<Rightarrow>
   Vector3f \<times> real \<times> Vector3f \<times> real" where
  "coarse_constraint compat_orient compat_pos rcp h l i =
     (let upper = mToUpper h ! l ! i;
          (cq, cqw) = combine_cq compat_orient h l upper;
          cq = (if cq \<noteq> Zero3 then
                  (let n = mN h ! (l + 1) ! i;
                       cq = vsub cq (smul n (dot n cq))
                   in if squaredNorm cq > rcp then normalize_v cq else cq)
                else cq);
          (co, cow) = combine_co compat_pos h l upper;
          co = (if co \<noteq> Zero3 then
                  (let n = mN h ! (l + 1) ! i; v = mV h ! (l + 1) ! i
                   in vsub co (smul n (dot n (vsub cq v))))
                else co);
          cqw = clamp_weight cqw;
          cow = clamp_weight cow
      in (cq, cqw, co, cow))"

definition propagateConstraints_vertex ::
  "compat_orientation \<Rightarrow> compat_position \<Rightarrow> real \<Rightarrow> nat \<Rightarrow> nat \<Rightarrow> hierarchy \<Rightarrow> hierarchy"
  where
  "propagateConstraints_vertex compat_orient compat_pos rcp l i h =
     (case coarse_constraint compat_orient compat_pos rcp h l i of
        (cq, cqw, co, cow) \<Rightarrow>
          h\<lparr> mCQw := (mCQw h)[l + 1 := (mCQw h ! (l + 1))[i := cqw]],
              mCOw := (mCOw h)[l + 1 := (mCOw h ! (l + 1))[i := cow]],
              mCQ := (mCQ h)[l + 1 := (mCQ h ! (l + 1))[i := cq]],
              mCO := (mCO h)[l + 1 := (mCO h ! (l + 1))[i := co]] \<rparr>)"

definition propagateConstraints_level ::
  "compat_orientation \<Rightarrow> compat_position \<Rightarrow> real \<Rightarrow> nat \<Rightarrow> hierarchy \<Rightarrow> hierarchy" where
  "propagateConstraints_level compat_orient compat_pos rcp l h =
     fold (propagateConstraints_vertex compat_orient compat_pos rcp l)
          [0..<size_of h (l + 1)] h"

definition propagateConstraints_levels ::
  "compat_orientation \<Rightarrow> compat_position \<Rightarrow> real \<Rightarrow> hierarchy \<Rightarrow> hierarchy" where
  "propagateConstraints_levels compat_orient compat_pos rcp h =
     fold (propagateConstraints_level compat_orient compat_pos rcp) [0..<levels h - 1] h"

text \<open>The selection of the position operator, in the order of the source.\<close>

definition select_pos :: "field_ops \<Rightarrow> int \<Rightarrow> compat_position option" where
  "select_pos F posy =
     (if posy = 4 then Some (compat_position_extrinsic_4 F)
      else if posy = 3 then Some (compat_position_extrinsic_3 F)
      else None)"

definition propagateConstraints ::
  "field_ops \<Rightarrow> real \<Rightarrow> int \<Rightarrow> int \<Rightarrow> hierarchy \<Rightarrow> (error + unit) \<times> hierarchy" where
  "propagateConstraints F rcp rosy posy h =
     (if levels h = 0 then (Inr (), h)
      else case select_orient F rosy of
        None \<Rightarrow> (Inl UnsupportedSymmetry, h)
      | Some compat_orient \<Rightarrow>
          (case select_pos F posy of
             None \<Rightarrow> (Inl UnsupportedSymmetry, h)
           | Some compat_pos \<Rightarrow>
               (Inr (), propagateConstraints_levels compat_orient compat_pos rcp h)))"
text \<open>The arrays a well-formed hierarchy holds for its constraints: one row per level,
  one entry per vertex.\<close>

definition constraints_allocated :: "hierarchy \<Rightarrow> bool" where
  "constraints_allocated h \<longleftrightarrow>
     length (mCQw h) = levels h \<and> length (mCOw h) = levels h \<and>
     length (mCQ h) = levels h \<and> length (mCO h) = levels h \<and>
     (\<forall>l<levels h. length (mCQw h ! l) = size_of h l \<and> length (mCOw h ! l) = size_of h l \<and>
                   length (mCQ h ! l) = size_of h l \<and> length (mCO h ! l) = size_of h l)"

subsection \<open>downsample_graph\<close>

text \<open>
  The scores.  The score of a link divides one area by another, and the data model allows
  an area to be zero: the quotient of the floats is then an infinity, or NaN for
  \<open>0 / 0\<close>, and a product with an infinity is an infinity or NaN.  The scores are
  therefore values of the following type, with the division, the product and the
  comparison \<^verbatim>\<open>a > b\<close> of floats (no comparison with NaN holds).  Finite values are
  reals, as everywhere in this file.
\<close>

datatype float_value = NaN | NegInf | Finite real | PosInf

definition float_div :: "real \<Rightarrow> real \<Rightarrow> float_value" where
  "float_div x y =
     (if y \<noteq> 0 then Finite (x / y)
      else if x > 0 then PosInf else if x < 0 then NegInf else NaN)"

definition float_mul :: "real \<Rightarrow> float_value \<Rightarrow> float_value" where
  "float_mul x r =
     (case r of
        Finite y \<Rightarrow> Finite (x * y)
      | PosInf \<Rightarrow> (if x > 0 then PosInf else if x < 0 then NegInf else NaN)
      | NegInf \<Rightarrow> (if x > 0 then NegInf else if x < 0 then PosInf else NaN)
      | NaN \<Rightarrow> NaN)"


text \<open>The local \<^verbatim>\<open>struct Entry { uint32_t i, j; float order; }\<close>.\<close>

type_synonym Entry = "nat \<times> nat \<times> float_value"

definition ent_i :: "Entry \<Rightarrow> nat" where
  "ent_i e = fst e"

definition ent_j :: "Entry \<Rightarrow> nat" where
  "ent_j e = fst (snd e)"

definition ent_order :: "Entry \<Rightarrow> float_value" where
  "ent_order e = snd (snd e)"


text \<open>
  What the functions below take from outside the file: the constants \<^verbatim>\<open>RCPOVERFLOW\<close> and
  \<^verbatim>\<open>MAX_DEPTH\<close>; the order in which \<^verbatim>\<open>tbb::parallel_sort\<close> leaves the entries; the order in
  which either sort leaves them when a score is NaN (\<^verbatim>\<open>operator<\<close> is then no strict weak
  ordering, and the result of the sort is unspecified); the order in which the
  iterations of the parallel \<^verbatim>\<open>copy_uncollapsed\<close> take their value of the atomic counter;
  and the permutation of \<open>0, \<dots>, n - 1\<close> that the \<^verbatim>\<open>pcg32\<close> generator produces, by
  \<^verbatim>\<open>rng.shuffle\<close> in the deterministic colouring and by the loop of locked swaps in the
  parallel one.
\<close>

record platform =
  RCPOVERFLOW :: real
  MAX_DEPTH :: nat
  parallel_sort :: "Entry list \<Rightarrow> Entry list"
  sort_with_nan :: "Entry list \<Rightarrow> Entry list"
  copy_order :: "nat \<Rightarrow> nat list"
  shuffle :: "nat \<Rightarrow> nat list"
  parallel_shuffle :: "nat \<Rightarrow> nat list"

text \<open>
  \<^verbatim>\<open>uint32_t nLinks = adj[V.cols()] - adj[0]\<close>: the number of links of the rows
  \<open>0, \<dots>, n - 1\<close>, as an unsigned 32-bit number.
\<close>

definition nLinks :: "AdjacencyMatrix \<Rightarrow> nat \<Rightarrow> nat" where
  "nLinks adj n = length (concat (take n adj)) mod 2 ^ 32"

text \<open>
  The first loop: one entry per directed link, row after row (\<^verbatim>\<open>entries[base + j]\<close>), with
  the score \<^verbatim>\<open>dp * ratio\<close>.  The array has \<^verbatim>\<open>nLinks\<close> entries.  (With \<open>2\<^sup>3\<^sup>2\<close> links or more
  the source writes outside the array; the theorems below are about adjacencies with
  fewer links.)
\<close>

definition score :: "MatrixXf \<Rightarrow> VectorXf \<Rightarrow> nat \<Rightarrow> nat \<Rightarrow> float_value" where
  "score N A i k =
     (let dp = dot (N ! i) (N ! k);
          ratio = (if A ! i > A ! k then float_div (A ! i) (A ! k)
                   else float_div (A ! k) (A ! i))
      in float_mul dp ratio)"

definition make_entries :: "AdjacencyMatrix \<Rightarrow> MatrixXf \<Rightarrow> VectorXf \<Rightarrow> nat \<Rightarrow> Entry list" where
  "make_entries adj N A n =
     take (nLinks adj n)
       (concat (map (\<lambda>i. map (\<lambda>link. (i, link_id link, score N A i (link_id link))) (adj ! i))
                    [0..<n]))"

text \<open>
  The sort.  By \<^verbatim>\<open>operator<\<close> the entries come in descending order of their score; the
  deterministic path sorts stably.  \<open>desc_key\<close> is a key that is ascending where the score
  is descending.
\<close>

fun desc_key :: "float_value \<Rightarrow> int \<times> real" where
  "desc_key PosInf = (0, 0)"
| "desc_key (Finite x) = (1, - x)"
| "desc_key NegInf = (2, 0)"
| "desc_key NaN = (3, 0)"

definition sort_entries :: "platform \<Rightarrow> bool \<Rightarrow> Entry list \<Rightarrow> Entry list" where
  "sort_entries P deterministic entries =
     (if NaN \<in> ent_order ` set entries then sort_with_nan P entries
      else if deterministic then sort_key (\<lambda>e. desc_key (ent_order e)) entries
      else parallel_sort P entries)"

text \<open>
  The greedy scan.  \<open>collapsed\<close> is the prefix \<^verbatim>\<open>entries[0..nCollapsed)\<close> into which the loop
  compacts the accepted entries (it writes at \<^verbatim>\<open>nCollapsed \<le> i\<close>, so never ahead of the
  entry it reads).
\<close>

fun matching :: "Entry list \<Rightarrow> bool list \<Rightarrow> Entry list \<Rightarrow> bool list \<times> Entry list" where
  "matching [] mergeFlag collapsed = (mergeFlag, collapsed)"
| "matching (e # es) mergeFlag collapsed =
     (if mergeFlag ! ent_i e \<or> mergeFlag ! ent_j e then matching es mergeFlag collapsed
      else matching es (mergeFlag[ent_i e := True, ent_j e := True]) (collapsed @ [e]))"

text \<open>
  \<^verbatim>\<open>uint32_t vertexCount = V.cols() - nCollapsed\<close>, an unsigned 32-bit subtraction.
\<close>

definition sub_u32 :: "nat \<Rightarrow> nat \<Rightarrow> nat" where
  "sub_u32 a b = (a + 2 ^ 32 - b mod 2 ^ 32) mod 2 ^ 32"

text \<open>
  The output arrays of the coarse level.  \<^verbatim>\<open>resize\<close> leaves them uninitialised, which is
  modelled by zeros; under the preconditions of the theorems below the two loops that
  follow write every slot.
\<close>

record coarse =
  V_p :: MatrixXf
  N_p :: MatrixXf
  A_p :: VectorXf
  to_upper :: "(nat \<times> nat) list"
  to_lower :: "nat list"

definition allocate :: "nat \<Rightarrow> nat \<Rightarrow> coarse" where
  "allocate vertexCount n =
     \<lparr> V_p = replicate vertexCount Zero3, N_p = replicate vertexCount Zero3,
       A_p = replicate vertexCount 0, to_upper = replicate vertexCount (0, 0),
       to_lower = replicate n 0 \<rparr>"

text \<open>The loop over the collapsed pairs: the body for the pair \<open>i\<close>.\<close>

definition collapse_pair ::
  "real \<Rightarrow> MatrixXf \<Rightarrow> MatrixXf \<Rightarrow> VectorXf \<Rightarrow> Entry list \<Rightarrow> nat \<Rightarrow> coarse \<Rightarrow> coarse" where
  "collapse_pair rcp V N A entries i c =
     (let e = entries ! i;
          area1 = A ! ent_i e; area2 = A ! ent_j e; surfaceArea = area1 + area2;
          v = (if surfaceArea > rcp then
                 sdiv (vadd (smul (V ! ent_i e) area1) (smul (V ! ent_j e) area2)) surfaceArea
               else smul (vadd (V ! ent_i e) (V ! ent_j e)) (1 / 2));
          normal = vadd (smul (N ! ent_i e) area1) (smul (N ! ent_j e) area2);
          norm = norm3 normal
      in c\<lparr> V_p := (V_p c)[i := v],
            N_p := (N_p c)[i := (if norm > rcp then sdiv normal norm else UnitX)],
            A_p := (A_p c)[i := surfaceArea],
            to_upper := (to_upper c)[i := (ent_i e, ent_j e)],
            to_lower := (to_lower c)[ent_i e := i, ent_j e := i] \<rparr>)"

text \<open>
  \<^verbatim>\<open>copy_uncollapsed\<close>: the body for the fine vertex \<open>i\<close>, on the counter \<open>offset\<close> and the
  arrays.
\<close>

definition copy_uncollapsed ::
  "MatrixXf \<Rightarrow> MatrixXf \<Rightarrow> VectorXf \<Rightarrow> bool list \<Rightarrow> nat \<Rightarrow> nat \<times> coarse \<Rightarrow> nat \<times> coarse" where
  "copy_uncollapsed V N A mergeFlag i s =
     (case s of (offset, c) \<Rightarrow>
        if \<not> mergeFlag ! i then
          (let idx = offset
           in (offset + 1,
               c\<lparr> V_p := (V_p c)[idx := V ! i],
                  N_p := (N_p c)[idx := N ! i],
                  A_p := (A_p c)[idx := A ! i],
                  to_upper := (to_upper c)[idx := (i, INVALID)],
                  to_lower := (to_lower c)[i := idx] \<rparr>))
        else (offset, c))"

text \<open>
  The coarse adjacency of the vertex \<open>i\<close>.  The links of its one or two parents, projected
  through \<^verbatim>\<open>to_lower\<close>:
\<close>

definition gather :: "AdjacencyMatrix \<Rightarrow> (nat \<times> nat) list \<Rightarrow> nat list \<Rightarrow> nat \<Rightarrow> Link list" where
  "gather adj toUpper toLower i =
     concat (map (\<lambda>upper. map (\<lambda>link. Link (toLower ! link_id link) (link_weight link))
                               (adj ! upper))
                 (filter (\<lambda>upper. upper \<noteq> INVALID) [fst (toUpper ! i), snd (toUpper ! i)]))"

text \<open>
  Modelled from the spec: \<^verbatim>\<open>operator<\<close> of \<^verbatim>\<open>Link\<close> is declared in a header that is not part
  of the sources; the scratch buffer is sorted "by neighbor id".
\<close>

definition sort_links :: "Link list \<Rightarrow> Link list" where
  "sort_links scratch = sort_key link_id scratch"

text \<open>
  The first pass counts the links the second pass will write (\<open>id0\<close> and \<open>size0\<close> are the
  locals \<^verbatim>\<open>id\<close> and \<^verbatim>\<open>size\<close>).
\<close>

fun count_links :: "nat \<Rightarrow> Link list \<Rightarrow> nat \<Rightarrow> nat \<Rightarrow> nat" where
  "count_links i [] id0 size0 = size0"
| "count_links i (link # scratch) id0 size0 =
     (if id0 \<noteq> link_id link \<and> link_id link \<noteq> i
      then count_links i scratch (link_id link) (size0 + 1)
      else count_links i scratch id0 size0)"

text \<open>
  The second pass.  \<open>dest\<close> is the part of the row written so far; \<^verbatim>\<open>dest[-1]\<close> is its last
  link.  (With nothing written yet the source would touch the link before the row; this
  needs a link whose id0 is \<^verbatim>\<open>INVALID\<close>, and the model leaves the row as it is.)
\<close>

fun merge_links :: "nat \<Rightarrow> Link list \<Rightarrow> Link list \<Rightarrow> nat \<Rightarrow> Link list" where
  "merge_links i [] dest id0 = dest"
| "merge_links i (link # scratch) dest id0 =
     (if link_id link \<noteq> i then
        (if id0 \<noteq> link_id link then merge_links i scratch (dest @ [link]) (link_id link)
         else if dest = [] then merge_links i scratch dest id0
         else merge_links i scratch
                (butlast dest @ [Link (link_id (last dest))
                                      (link_weight (last dest) + link_weight link)]) id0)
      else merge_links i scratch dest id0)"

definition neighborhoodSize :: "AdjacencyMatrix \<Rightarrow> coarse \<Rightarrow> nat \<Rightarrow> nat" where
  "neighborhoodSize adj c i =
     count_links i (sort_links (gather adj (to_upper c) (to_lower c) i)) INVALID 0"

definition coarse_row :: "AdjacencyMatrix \<Rightarrow> coarse \<Rightarrow> nat \<Rightarrow> Link list" where
  "coarse_row adj c i =
     merge_links i (sort_links (gather adj (to_upper c) (to_lower c) i)) [] INVALID"

text \<open>
  The order in which the vertices run through \<^verbatim>\<open>copy_uncollapsed\<close>: ascending on the
  deterministic path, the platform's otherwise.
\<close>

definition vertex_order :: "platform \<Rightarrow> bool \<Rightarrow> nat \<Rightarrow> nat list" where
  "vertex_order P deterministic n = (if deterministic then [0..<n] else copy_order P n)"

text \<open>The whole function; it returns the coarse adjacency and the output arrays.\<close>

definition downsample_arrays ::
  "platform \<Rightarrow> AdjacencyMatrix \<Rightarrow> MatrixXf \<Rightarrow> MatrixXf \<Rightarrow> VectorXf \<Rightarrow> bool \<Rightarrow> coarse" where
  "downsample_arrays P adj V N A deterministic =
     (let n = length V;
          entries = sort_entries P deterministic (make_entries adj N A n);
          (mergeFlag, entries) = matching entries (replicate n False) [];
          nCollapsed = length entries;
          vertexCount = sub_u32 n nCollapsed;
          c = allocate vertexCount n;
          c = fold (collapse_pair (RCPOVERFLOW P) V N A entries) [0..<nCollapsed] c
      in snd (fold (copy_uncollapsed V N A mergeFlag) (vertex_order P deterministic n)
                (nCollapsed, c)))"

definition downsample_graph ::
  "platform \<Rightarrow> AdjacencyMatrix \<Rightarrow> MatrixXf \<Rightarrow> MatrixXf \<Rightarrow> VectorXf \<Rightarrow> bool \<Rightarrow>
   AdjacencyMatrix \<times> coarse" where
  "downsample_graph P adj V N A deterministic =
     (let c = downsample_arrays P adj V N A deterministic
      in (map (coarse_row adj c) [0..<length (V_p c)], c))"

subsection \<open>Well-formed inputs\<close>

text \<open>
  An adjacency over \<open>n\<close> vertices has \<open>n\<close> rows whose links name vertices, and fewer than
  \<open>2\<^sup>3\<^sup>2\<close> links, so that the 32-bit counters of the source hold them; the data model
  further asks that no vertex lists itself.  The orders the platform chooses are
  permutations, of the entries and of the vertices, and the parallel sort leaves entries
  without a NaN score in descending order of their score.
\<close>

definition ids_in_range :: "nat \<Rightarrow> AdjacencyMatrix \<Rightarrow> bool" where
  "ids_in_range n adj \<longleftrightarrow>
     length adj = n \<and> length (concat adj) < 2 ^ 32 \<and>
     (\<forall>i<n. \<forall>link\<in>set (adj ! i). link_id link < n)"

definition no_self_loops :: "nat \<Rightarrow> AdjacencyMatrix \<Rightarrow> bool" where
  "no_self_loops n adj \<longleftrightarrow> (\<forall>i<n. \<forall>link\<in>set (adj ! i). link_id link \<noteq> i)"

definition platform_ok :: "platform \<Rightarrow> bool" where
  "platform_ok P \<longleftrightarrow>
     (\<forall>es. mset (parallel_sort P es) = mset es) \<and>
     (\<forall>es. NaN \<notin> ent_order ` set es \<longrightarrow>
           sorted (map (\<lambda>e. desc_key (ent_order e)) (parallel_sort P es))) \<and>
     (\<forall>es. mset (sort_with_nan P es) = mset es) \<and>
     (\<forall>n. mset (copy_order P n) = mset [0..<n])"

definition shuffle_ok :: "platform \<Rightarrow> bool" where
  "shuffle_ok P \<longleftrightarrow>
     (\<forall>n. mset (shuffle P n) = mset [0..<n]) \<and>
     (\<forall>n. mset (parallel_shuffle P n) = mset [0..<n])"

subsection \<open>generate_graph_coloring_deterministic\<close>

text \<open>
  The state of the sequential greedy colouring: \<^verbatim>\<open>color\<close> (\<open>-1\<close> for "none yet"), the byte
  flags \<^verbatim>\<open>possible_colors\<close>, \<^verbatim>\<open>size_per_color\<close> and \<^verbatim>\<open>ncolors\<close>.
\<close>

record coloring =
  color :: "int list"
  possible_colors :: "8 word list"
  size_per_color :: "int list"
  ncolors :: int

text \<open>The loop over the links of the vertex: the colours of its neighbours are struck.\<close>

definition mark_neighbors :: "int list \<Rightarrow> Link list \<Rightarrow> 8 word list \<Rightarrow> 8 word list" where
  "mark_neighbors col links pc =
     fold (\<lambda>link pc. let c = col ! link_id link in if c \<ge> 0 then pc[nat c := 0] else pc)
          links pc"

text \<open>The search for the first colour that is still possible, from \<open>j\<close> on; \<open>-1\<close> if none.\<close>

fun first_possible :: "8 word list \<Rightarrow> nat \<Rightarrow> int" where
  "first_possible [] j = - 1"
| "first_possible (p # ps) j = (if p \<noteq> 0 then int j else first_possible ps (j + 1))"

text \<open>\<^verbatim>\<open>possible_colors.resize(ncolors)\<close>: new elements are zero.\<close>

definition resize_vector :: "nat \<Rightarrow> 8 word list \<Rightarrow> 8 word list" where
  "resize_vector n xs = take n xs @ replicate (n - length xs) 0"

text \<open>The body of the main loop for the vertex \<open>ip\<close>.\<close>

definition color_vertex :: "AdjacencyMatrix \<Rightarrow> nat \<Rightarrow> coloring \<Rightarrow> coloring" where
  "color_vertex adj ip s =
     (let pc = map (\<lambda>_. 1) (possible_colors s);
          pc = mark_neighbors (color s) (adj ! ip) pc;
          chosen_color = first_possible pc 0;
          s = s\<lparr> possible_colors := pc \<rparr>;
          (chosen_color, s) =
            (if chosen_color < 0 then
               (ncolors s,
                s\<lparr> ncolors := ncolors s + 1,
                   possible_colors := resize_vector (nat (ncolors s + 1)) pc,
                   size_per_color := size_per_color s @ [0] \<rparr>)
             else (chosen_color, s))
      in s\<lparr> color := (color s)[ip := chosen_color],
            size_per_color := (size_per_color s)
              [nat chosen_color := size_per_color s ! nat chosen_color + 1] \<rparr>)"

text \<open>
  The conversion of an \<^verbatim>\<open>int\<close> to the 64-bit index of a vector, and
  \<^verbatim>\<open>phases[k].push_back(i)\<close>.  (An index outside the vector is undefined behaviour in the
  source; the model then leaves the phases as they are.  The colourings below index
  inside it.)
\<close>

definition to_size_t :: "int \<Rightarrow> nat" where
  "to_size_t c = nat (c mod 2 ^ 64)"

definition push_back_phase :: "nat \<Rightarrow> nat \<Rightarrow> nat list list \<Rightarrow> nat list list" where
  "push_back_phase k i phases = phases[k := phases ! k @ [i]]"

text \<open>
  The function.  \<open>perm\<close> is the vector \<^verbatim>\<open>perm\<close> after \<^verbatim>\<open>rng.shuffle\<close>.  No statement of this
  function throws.
\<close>

definition generate_graph_coloring_deterministic ::
  "AdjacencyMatrix \<Rightarrow> nat \<Rightarrow> nat list \<Rightarrow> nat list list" where
  "generate_graph_coloring_deterministic adj size0 perm =
     (let s = \<lparr> color = replicate size0 (- 1), possible_colors = [],
                size_per_color = [], ncolors = 0 \<rparr>;
          s = fold (\<lambda>i s. color_vertex adj (perm ! i) s) [0..<size0] s;
          phases = replicate (nat (ncolors s)) []
      in fold (\<lambda>i phases. push_back_phase (to_size_t (color s ! i)) i phases)
              [0..<size0] phases)"

subsection \<open>generate_graph_coloring\<close>

text \<open>
  The parallel colouring, in the execution in which one worker runs the body of the
  reduction over the whole of \<^verbatim>\<open>[0, size)\<close> (the spin locks then never block, and the
  \<^verbatim>\<open>ColorData\<close> of the reduction is the accumulated one).
\<close>

record ColorData =
  nColors :: "8 word"
  nNodes :: "nat list"

definition INVALID_COLOR :: "8 word" where
  "INVALID_COLOR = 255"

text \<open>
  \<^verbatim>\<open>while (c >= colorData.nColors) { ... }\<close>, which the source runs for \<^verbatim>\<open>c != INVALID_COLOR\<close>
  only.
\<close>

function grow_colors :: "8 word \<Rightarrow> bool list \<Rightarrow> ColorData \<Rightarrow> bool list \<times> ColorData" where
  "grow_colors c pc cd =
     (if c \<noteq> INVALID_COLOR \<and> c \<ge> nColors cd then
        grow_colors c (pc[unat (nColors cd) := True])
          (cd\<lparr> nNodes := (nNodes cd)[unat (nColors cd) := 0], nColors := nColors cd + 1 \<rparr>)
      else (pc, cd))"
  by pat_completeness auto
termination
proof (relation "measure (\<lambda>(c, pc, cd). 256 - unat (nColors cd))")
  show "wf (measure (\<lambda>(c, pc, cd). 256 - unat (nColors cd)))" by simp
next
  fix c :: "8 word" and pc :: "bool list" and cd :: ColorData
  assume a: "c \<noteq> INVALID_COLOR \<and> nColors cd \<le> c"
  have c: "unat c < 256" using unsigned_less [of c, where ?'a = nat] by simp
  have "unat c \<noteq> 255"
    using a by (simp add: INVALID_COLOR_def word_unat_eq_iff)
  then have c255: "unat c < 255" using c by simp
  have le: "unat (nColors cd) \<le> unat c" using a by (simp add: word_le_nat_alt)
  have "unat (nColors cd) + unat (1 :: 8 word) < 2 ^ LENGTH(8)"
    using le c255 by simp
  then have "unat (nColors cd + 1) = unat (nColors cd) + 1"
    by (simp add: unat_add_lem [THEN iffD1])
  then show "((c, pc[unat (nColors cd) := True],
       cd\<lparr> nNodes := (nNodes cd)[unat (nColors cd) := 0], nColors := nColors cd + 1 \<rparr>),
      (c, pc, cd)) \<in> measure (\<lambda>(c, pc, cd). 256 - unat (nColors cd))"
    using c255 le by simp
qed

declare grow_colors.simps [simp del]

text \<open>The state of the body: the shared \<^verbatim>\<open>color\<close> array, the local flags, the tally.\<close>

record parallel_coloring =
  color8 :: "8 word list"
  possible :: "bool list"
  colorData :: ColorData

definition mark_neighbors8 ::
  "8 word list \<Rightarrow> Link list \<Rightarrow> bool list \<times> ColorData \<Rightarrow> bool list \<times> ColorData" where
  "mark_neighbors8 col links s =
     fold (\<lambda>link (pc, cd).
             let c = col ! link_id link
             in if c \<noteq> INVALID_COLOR then
                  (case grow_colors c pc cd of (pc, cd) \<Rightarrow> (pc[unat c := False], cd))
                else (pc, cd))
          links s"

text \<open>\<^verbatim>\<open>for (uint8_t j=0; j<colorData.nColors; ++j)\<close>: the first possible colour below
  \<^verbatim>\<open>nColors\<close>, else \<^verbatim>\<open>INVALID_COLOR\<close>.\<close>

fun first_possible8 :: "bool list \<Rightarrow> nat list \<Rightarrow> 8 word" where
  "first_possible8 pc [] = INVALID_COLOR"
| "first_possible8 pc (j # js) = (if pc ! j then of_nat j else first_possible8 pc js)"

definition color_vertex8 ::
  "AdjacencyMatrix \<Rightarrow> nat \<Rightarrow> parallel_coloring \<Rightarrow> error + parallel_coloring" where
  "color_vertex8 adj i s =
     (let cd = colorData s;
          pc = replicate (unat (nColors cd)) True @ drop (unat (nColors cd)) (possible s);
          (pc, cd) = mark_neighbors8 (color8 s) (adj ! i) (pc, cd);
          chosen_color = first_possible8 pc [0..<unat (nColors cd)]
      in if chosen_color = INVALID_COLOR then
           (if nColors cd = INVALID_COLOR - 1 then Inl ColoringExhausted
            else Inr \<lparr> color8 = (color8 s)[i := nColors cd], possible = pc,
                       colorData = cd\<lparr> nNodes := (nNodes cd)[unat (nColors cd) := 1],
                                          nColors := nColors cd + 1 \<rparr> \<rparr>)
         else
           Inr \<lparr> color8 = (color8 s)[i := chosen_color], possible = pc,
                  colorData = cd\<lparr> nNodes := (nNodes cd)
                     [unat chosen_color := nNodes cd ! unat chosen_color + 1] \<rparr> \<rparr>)"

text \<open>The loop over the permutation stops at the first \<^verbatim>\<open>throw\<close>.\<close>

fun color_range ::
  "AdjacencyMatrix \<Rightarrow> nat list \<Rightarrow> parallel_coloring \<Rightarrow> error + parallel_coloring" where
  "color_range adj [] s = Inr s"
| "color_range adj (i # is) s =
     (case color_vertex8 adj i s of Inl e \<Rightarrow> Inl e | Inr s' \<Rightarrow> color_range adj is s')"

text \<open>
  The function.  \<open>perm\<close> is the vector \<^verbatim>\<open>perm\<close> after the parallel shuffle; the 256 flags and
  counters start uninitialised, which is modelled by \<open>False\<close> and \<open>0\<close>.
\<close>

definition generate_graph_coloring ::
  "AdjacencyMatrix \<Rightarrow> nat \<Rightarrow> nat list \<Rightarrow> error + nat list list" where
  "generate_graph_coloring adj size0 perm =
     (let s = \<lparr> color8 = replicate size0 INVALID_COLOR, possible = replicate 256 False,
                colorData = \<lparr> nColors = 0, nNodes = replicate 256 0 \<rparr> \<rparr>
      in case color_range adj (map (\<lambda>pidx. perm ! pidx) [0..<size0]) s of
           Inl e \<Rightarrow> Inl e
         | Inr s \<Rightarrow>
             Inr (fold (\<lambda>i phases. push_back_phase (unat (color8 s ! i)) i phases)
                       [0..<size0] (replicate (unat (nColors (colorData s))) [])))"

subsection \<open>build\<close>

text \<open>The colouring of one level, by the variant the flag selects.\<close>

definition color_level ::
  "platform \<Rightarrow> bool \<Rightarrow> AdjacencyMatrix \<Rightarrow> nat \<Rightarrow> error + nat list list" where
  "color_level P deterministic adj n =
     (if deterministic then Inr (generate_graph_coloring_deterministic adj n (shuffle P n))
      else generate_graph_coloring adj n (parallel_shuffle P n))"

text \<open>The pushes at the end of one round of the loop.\<close>

definition push_level ::
  "AdjacencyMatrix \<Rightarrow> coarse \<Rightarrow> nat list list \<Rightarrow> hierarchy \<Rightarrow> hierarchy" where
  "push_level adj_p c phases_p h =
     h\<lparr> mTotalSize := mTotalSize h + length (V_p c),
        mPhases := mPhases h @ [phases_p],
        mAdj := mAdj h @ [adj_p],
        mV := mV h @ [V_p c],
        mN := mN h @ [N_p c],
        mA := mA h @ [A_p c],
        mToUpper := mToUpper h @ [to_upper c],
        mToLower := mToLower h @ [to_lower c],
        mCO := mCO h @ [[]],
        mCOw := mCOw h @ [[]],
        mCQ := mCQ h @ [[]],
        mCQw := mCQw h @ [[]] \<rparr>"

text \<open>
  The loop \<^verbatim>\<open>for (int i=0; i<MAX_DEPTH; ++i)\<close>, with the number of rounds that are left.  An
  exception of the colouring leaves the hierarchy as the earlier rounds built it.
\<close>

fun build_loop ::
  "platform \<Rightarrow> bool \<Rightarrow> nat \<Rightarrow> nat \<Rightarrow> hierarchy \<Rightarrow> (error + unit) \<times> hierarchy" where
  "build_loop P deterministic 0 i h = (Inr (), h)"
| "build_loop P deterministic (Suc rounds) i h =
     (case downsample_graph P (mAdj h ! i) (mV h ! i) (mN h ! i) (mA h ! i) deterministic of
        (adj_p, c) \<Rightarrow>
          (case color_level P deterministic adj_p (length (V_p c)) of
             Inl e \<Rightarrow> (Inl e, h)
           | Inr phases_p \<Rightarrow>
               (let h = push_level adj_p c phases_p h
                in if length (mV h ! (length (mV h) - 1)) = 1 then (Inr (), h)
                   else build_loop P deterministic rounds (i + 1) h)))"

definition build :: "platform \<Rightarrow> bool \<Rightarrow> hierarchy \<Rightarrow> (error + unit) \<times> hierarchy" where
  "build P deterministic h =
     (case color_level P deterministic (mAdj h ! 0) (length (mV h ! 0)) of
        Inl e \<Rightarrow> (Inl e, h)
      | Inr phases \<Rightarrow>
          (let h = h\<lparr> mPhases := mPhases h @ [phases],
                      mTotalSize := length (mV h ! 0),
                      mCO := mCO h @ [[]], mCOw := mCOw h @ [[]],
                      mCQ := mCQ h @ [[]], mCQw := mCQw h @ [[]] \<rparr>
           in case build_loop P deterministic (MAX_DEPTH P) 0 h of
                (Inl e, h) \<Rightarrow> (Inl e, h)
              | (Inr u, h) \<Rightarrow>
                  (Inr u, h\<lparr> mIterationsQ := - 1, mIterationsO := - 1,
                              mFrozenQ := False, mFrozenO := False \<rparr>)))"


subsection \<open>Concrete inputs\<close>

text \<open>The state the constructor leaves: no level, scale 0, iteration counters -1.\<close>

definition MultiResolutionHierarchy :: hierarchy where
  "MultiResolutionHierarchy =
     \<lparr> mAdj = [], mV = [], mN = [], mA = [], mQ = [], mO = [], mCQ = [], mCQw = [],
       mCO = [], mCOw = [], mToUpper = [], mToLower = [], mPhases = [], mTotalSize = 0,
       mScale = 0, mIterationsQ = - 1, mIterationsO = - 1, mFrozenQ = False,
       mFrozenO = False \<rparr>"

definition plain_ops :: field_ops where
  "plain_ops =
     \<lparr> compat_orientation_extrinsic_2 = (\<lambda>q0 n0 q1 n1. (q0, q1)),
       compat_orientation_extrinsic_4 = (\<lambda>q0 n0 q1 n1. (q0, q1)),
       compat_orientation_extrinsic_6 = (\<lambda>q0 n0 q1 n1. (q0, q1)),
       compat_position_extrinsic_3 = (\<lambda>v0 n0 q0 o0 v1 n1 q1 o1 s t. (o0, o1)),
       compat_position_extrinsic_4 = (\<lambda>v0 n0 q0 o0 v1 n1 q1 o1 s t. (o0, o1)) \<rparr>"

definition single_vertex :: hierarchy where
  "single_vertex = MultiResolutionHierarchy
     \<lparr> mAdj := [[[]]], mV := [[(0, 0, 0)]], mN := [[(0, 0, 1)]], mA := [[1]],
       mQ := [[(1, 0, 0)]], mO := [[(0, 0, 0)]], mCQ := [[(0, 0, 0)]], mCQw := [[0]],
       mCO := [[(0, 0, 0)]], mCOw := [[0]], mPhases := [[[0]]], mTotalSize := 1,
       mScale := 1 \<rparr>"

definition tiny_tangent :: hierarchy where
  "tiny_tangent = MultiResolutionHierarchy
     \<lparr> mAdj := [[[]], [[]]], mV := [[(0, 0, 0)], [(0, 0, 0)]],
       mN := [[(0, 0, 1)], [(0, 0, 1)]], mA := [[1], [1]],
       mQ := [[(1 / 10 ^ 20, 0, 0)], [(0, 0, 0)]], mO := [[(0, 0, 0)], [(0, 0, 0)]],
       mCQ := [[(0, 0, 0)], [(0, 0, 0)]], mCQw := [[0], [0]],
       mCO := [[(0, 0, 0)], [(0, 0, 0)]], mCOw := [[0], [0]],
       mToUpper := [[(0, INVALID)]], mToLower := [[0]],
       mPhases := [[[0]], [[0]]], mTotalSize := 2, mScale := 1 \<rparr>"

definition merged_pair :: hierarchy where
  "merged_pair = MultiResolutionHierarchy
     \<lparr> mAdj := [[[Link 1 1], [Link 0 1]], [[]]],
       mV := [[(0, 0, 0), (1, 0, 0)], [(1 / 2, 0, 0)]],
       mN := [[(0, 0, 1), (0, 0, 1)], [(0, 0, 1)]], mA := [[1, 1], [2]],
       mQ := [[(1, 0, 0), (1, 0, 0)], [(0, 1, 0)]],
       mO := [[(0, 0, 0), (1, 0, 0)], [(0, 0, 0)]],
       mCQ := [[(1, 0, 0), (0, 0, 0)], [(0, 0, 0)]], mCQw := [[3, 0], [0]],
       mCO := [[(0, 0, 0), (1, 0, 0)], [(0, 0, 0)]], mCOw := [[2, 5], [0]],
       mToUpper := [[(0, 1)]], mToLower := [[0, 0]],
       mPhases := [[[0], [1]], [[0]]], mTotalSize := 3, mScale := 1 \<rparr>"

text \<open>
  A platform whose parallel sort leaves the entries in descending order of their score
  (and equal scores in the reverse of their first order), whose parallel copy runs
  through the vertices backwards, and whose permutations are the identity and the
  reversal.
\<close>

definition test_platform :: platform where
  "test_platform =
     \<lparr> RCPOVERFLOW = 1 / 10 ^ 38, MAX_DEPTH = 25,
       parallel_sort = (\<lambda>es. sort_key (\<lambda>e. desc_key (ent_order e)) (rev es)),
       sort_with_nan = rev,
       copy_order = (\<lambda>n. rev [0..<n]),
       shuffle = (\<lambda>n. [0..<n]),
       parallel_shuffle = (\<lambda>n. rev [0..<n]) \<rparr>"

text \<open>The triangle graph: three vertices, unit areas, every pair linked with weight 1.\<close>

definition tri_adj :: AdjacencyMatrix where
  "tri_adj = [[Link 1 1, Link 2 1], [Link 0 1, Link 2 1], [Link 0 1, Link 1 1]]"

definition tri_V :: MatrixXf where
  "tri_V = [(0, 0, 0), (1, 0, 0), (0, 1, 0)]"

definition tri_N :: MatrixXf where
  "tri_N = [(0, 0, 1), (0, 0, 1), (0, 0, 1)]"

definition tri_A :: VectorXf where
  "tri_A = [1, 1, 1]"

text \<open>The disconnected pair: two vertices, no link.\<close>

definition pair_adj :: AdjacencyMatrix where
  "pair_adj = [[], []]"

definition pair_V :: MatrixXf where
  "pair_V = [(0, 0, 0), (1, 0, 0)]"

definition pair_N :: MatrixXf where
  "pair_N = [(0, 0, 1), (0, 0, 1)]"

definition pair_A :: VectorXf where
  "pair_A = [1, 1]"

definition tri_hierarchy :: hierarchy where
  "tri_hierarchy = MultiResolutionHierarchy
     \<lparr> mAdj := [tri_adj], mV := [tri_V], mN := [tri_N], mA := [tri_A] \<rparr>"

subsection \<open>Auxiliary notions of the proofs\<close>

text \<open>The vertices a flag array marks, and the endpoints of a list of entries.\<close>

definition flagged :: "bool list \<Rightarrow> nat set" where
  "flagged mergeFlag = {v. v < length mergeFlag \<and> mergeFlag ! v}"

definition endpoints :: "Entry list \<Rightarrow> nat list" where
  "endpoints es = concat (map (\<lambda>e. [ent_i e, ent_j e]) es)"

text \<open>
  The loop of \<^verbatim>\<open>copy_uncollapsed\<close> seen from one array: the values of the unflagged
  vertices are written from \<open>off\<close> on.
\<close>

fun fill :: "(nat \<Rightarrow> 'a) \<Rightarrow> bool list \<Rightarrow> nat list \<Rightarrow> nat \<Rightarrow> 'a list \<Rightarrow> 'a list" where
  "fill f fl [] off xs = xs"
| "fill f fl (i # os) off xs =
     (if \<not> fl ! i then fill f fl os (off + 1) (xs[off := f i]) else fill f fl os off xs)"

text \<open>The unflagged vertices, in the order in which they are visited.\<close>

definition unmatched :: "bool list \<Rightarrow> nat list \<Rightarrow> nat list" where
  "unmatched fl os = filter (\<lambda>i. \<not> fl ! i) os"

text \<open>The total weight of the links of a list that lead to the vertex \<open>k\<close>.\<close>

definition wsum :: "nat \<Rightarrow> Link list \<Rightarrow> real" where
  "wsum k ls = sum_list (map link_weight (filter (\<lambda>l. link_id l = k) ls))"

text \<open>
  The area of a coarse vertex as its parents give it, and the invariant of the loop of
  \<^verbatim>\<open>build\<close> after \<open>i\<close> rounds: \<open>i + 1\<close> levels, the last one a well-formed input of
  \<^verbatim>\<open>downsample_graph\<close>, every level of total area \<open>S\<close>, and every coarse area the sum of
  the areas of its parents.
\<close>

definition parents_area :: "VectorXf \<Rightarrow> (nat \<times> nat) list \<Rightarrow> nat \<Rightarrow> real" where
  "parents_area A toUpper v =
     (if snd (toUpper ! v) = INVALID then A ! fst (toUpper ! v)
      else A ! fst (toUpper ! v) + A ! snd (toUpper ! v))"

definition build_inv :: "real \<Rightarrow> nat \<Rightarrow> hierarchy \<Rightarrow> bool" where
  "build_inv S i h \<longleftrightarrow>
     length (mAdj h) = i + 1 \<and> length (mV h) = i + 1 \<and> length (mA h) = i + 1 \<and>
     length (mToUpper h) = i \<and>
     ids_in_range (length (mV h ! i)) (mAdj h ! i) \<and>
     no_self_loops (length (mV h ! i)) (mAdj h ! i) \<and>
     length (mV h ! i) < 2 ^ 32 \<and> length (mA h ! i) = length (mV h ! i) \<and>
     (\<forall>l\<le>i. sum_list (mA h ! l) = S) \<and>
     (\<forall>l<i. \<forall>v<length (mV h ! (l + 1)).
        mA h ! (l + 1) ! v = parents_area (mA h ! l) (mToUpper h ! l) v)"


section \<open>Properties\<close>

subsection \<open>Symmetry errors and the empty hierarchy\<close>

text \<open>
  C8 (as amended).  \<^verbatim>\<open>propagateSolution(rosy)\<close> raises UnsupportedSymmetry exactly when
  \<open>rosy\<close> is not 2, 4 or 6.  \<^verbatim>\<open>propagateConstraints(rosy, posy)\<close> raises it exactly when the
  hierarchy has at least one level and \<open>rosy\<close> is not 2, 4 or 6 or \<open>posy\<close> is not 3 or 4.
  No other error is raised, and on an error the hierarchy is the one the call received.
\<close>

theorem unsupported_symmetry:
  "(fst (propagateSolution F rcp rosy h) = Inl UnsupportedSymmetry \<longleftrightarrow> rosy \<notin> {2, 4, 6}) \<and>
   (fst (propagateSolution F rcp rosy h) = Inl e \<longrightarrow>
      e = UnsupportedSymmetry \<and> snd (propagateSolution F rcp rosy h) = h) \<and>
   (fst (propagateConstraints F rcp rosy posy h) = Inl UnsupportedSymmetry \<longleftrightarrow>
      levels h \<noteq> 0 \<and> (rosy \<notin> {2, 4, 6} \<or> posy \<notin> {3, 4})) \<and>
   (fst (propagateConstraints F rcp rosy posy h) = Inl e \<longrightarrow>
      e = UnsupportedSymmetry \<and> snd (propagateConstraints F rcp rosy posy h) = h)"
  by (simp add: propagateSolution_def propagateConstraints_def select_orient_def
      select_pos_def split: option.splits)

theorem unsupported_symmetry_witness:
  "fst (propagateSolution plain_ops 0 5 single_vertex) = Inl UnsupportedSymmetry \<and>
   snd (propagateSolution plain_ops 0 5 single_vertex) = single_vertex \<and>
   fst (propagateConstraints plain_ops 0 4 5 single_vertex) = Inl UnsupportedSymmetry \<and>
   snd (propagateConstraints plain_ops 0 4 5 single_vertex) = single_vertex"
  using unsupported_symmetry [of plain_ops 0 5 single_vertex UnsupportedSymmetry]
    unsupported_symmetry [of plain_ops 0 4 single_vertex UnsupportedSymmetry 5]
  by (simp add: levels_def single_vertex_def)

text \<open>
  C8 as stated fails: on the hierarchy without levels \<^verbatim>\<open>propagateConstraints(5, 7)\<close>
  returns without an error, although neither symmetry is supported.
\<close>

theorem unsupported_symmetry_counterexample:
  "\<not> (fst (propagateConstraints plain_ops 0 5 7 MultiResolutionHierarchy) = Inl UnsupportedSymmetry
      \<longleftrightarrow> (5::int) \<notin> {2, 4, 6} \<or> (7::int) \<notin> {3, 4})"
  by (simp add: propagateConstraints_def levels_def MultiResolutionHierarchy_def)

text \<open>
  C10.  On a hierarchy with zero levels \<^verbatim>\<open>clearConstraints\<close> and \<^verbatim>\<open>propagateConstraints\<close>
  return normally and leave the hierarchy as it is, whatever the arguments:
  \<^verbatim>\<open>propagateConstraints\<close> returns before it looks at \<open>rosy\<close> and \<open>posy\<close>.
\<close>

theorem empty_hierarchy_noop:
  "levels h = 0 \<Longrightarrow>
   clearConstraints fresh h = (Inr (), h) \<and>
   propagateConstraints F rcp rosy posy h = (Inr (), h)"
  by (simp add: clearConstraints_def propagateConstraints_def)

theorem empty_hierarchy_noop_witness:
  "levels MultiResolutionHierarchy = 0 \<and>
   clearConstraints (0, 0, 0) MultiResolutionHierarchy = (Inr (), MultiResolutionHierarchy) \<and>
   propagateConstraints plain_ops 0 5 7 MultiResolutionHierarchy
     = (Inr (), MultiResolutionHierarchy)"
proof -
  have l: "levels MultiResolutionHierarchy = 0"
    by (simp add: levels_def MultiResolutionHierarchy_def)
  show ?thesis
    using l empty_hierarchy_noop [OF l, of "(0, 0, 0)" plain_ops 0 5 7] by simp
qed

subsection \<open>Propagation of the tangent field\<close>

lemma row_update_step:
  "k < length row \<Longrightarrow>
   (map f [0..<k] @ drop k row)[k := f k] = map f [0..<Suc k] @ drop (Suc k) row"
  by (simp add: list_update_append Cons_nth_drop_Suc [symmetric])

lemma coarse_tangent_cong:
  "mToUpper h' = mToUpper h \<Longrightarrow> mN h' = mN h \<Longrightarrow> mQ h' ! l = mQ h ! l \<Longrightarrow>
   coarse_tangent co rcp h' l i = coarse_tangent co rcp h l i"
  by (simp add: coarse_tangent_def Let_def)

lemma propagateSolution_vertex_fold:
  assumes "l + 1 < length (mQ h)" and "k \<le> length (mQ h ! (l + 1))"
  shows "fold (propagateSolution_vertex co rcp l) [0..<k] h =
         h\<lparr> mQ := (mQ h)[l + 1 := map (coarse_tangent co rcp h l) [0..<k]
                                      @ drop k (mQ h ! (l + 1))] \<rparr>"
  using assms(2)
proof (induction k)
  case 0
  then show ?case by simp
next
  case (Suc k)
  let ?row = "map (coarse_tangent co rcp h l) [0..<k] @ drop k (mQ h ! (l + 1))"
  let ?h = "h\<lparr> mQ := (mQ h)[l + 1 := ?row] \<rparr>"
  have k: "k < length (mQ h ! (l + 1))" using Suc.prems by simp
  have IH: "fold (propagateSolution_vertex co rcp l) [0..<k] h = ?h"
    using Suc by simp
  have c: "coarse_tangent co rcp ?h l k = coarse_tangent co rcp h l k"
    by (rule coarse_tangent_cong) simp_all
  have "propagateSolution_vertex co rcp l k ?h =
        h\<lparr> mQ := (mQ h)[l + 1 := ?row[k := coarse_tangent co rcp h l k]] \<rparr>"
    using assms(1) c by (simp add: propagateSolution_vertex_def)
  also have "?row[k := coarse_tangent co rcp h l k] =
        map (coarse_tangent co rcp h l) [0..<Suc k] @ drop (Suc k) (mQ h ! (l + 1))"
    using k by (rule row_update_step)
  finally show ?case using IH by simp
qed

lemma propagateSolution_level_eq:
  assumes "l + 1 < length (mQ h)" and "length (mQ h ! (l + 1)) = size_of h (l + 1)"
  shows "propagateSolution_level co rcp l h =
         h\<lparr> mQ := (mQ h)[l + 1 := map (coarse_tangent co rcp h l) [0..<size_of h (l + 1)]] \<rparr>"
  using propagateSolution_vertex_fold [OF assms(1), of "size_of h (l + 1)" co rcp] assms(2)
  by (simp add: propagateSolution_level_def)

lemma propagateSolution_levels_inv:
  assumes len: "length (mQ h) = levels h"
    and rows: "\<forall>l<levels h. length (mQ h ! l) = size_of h l"
    and K: "K \<le> levels h - 1"
  shows "\<exists>Q'. fold (propagateSolution_level co rcp) [0..<K] h = h\<lparr> mQ := Q' \<rparr> \<and>
           length Q' = length (mQ h) \<and>
           Q' ! 0 = mQ h ! 0 \<and> (\<forall>l>K. Q' ! l = mQ h ! l) \<and>
           (\<forall>l<K. \<forall>i < size_of h (l + 1).
              Q' ! (l + 1) ! i = coarse_tangent co rcp (h\<lparr> mQ := Q' \<rparr>) l i)"
  using K
proof (induction K)
  case 0
  show ?case by (rule exI [of _ "mQ h"]) simp
next
  case (Suc K)
  then obtain Q' where Q': "fold (propagateSolution_level co rcp) [0..<K] h = h\<lparr> mQ := Q' \<rparr>"
    "length Q' = length (mQ h)" "Q' ! 0 = mQ h ! 0" "\<forall>l>K. Q' ! l = mQ h ! l"
    "\<forall>l<K. \<forall>i < size_of h (l + 1). Q' ! (l + 1) ! i = coarse_tangent co rcp (h\<lparr> mQ := Q' \<rparr>) l i"
    by auto
  let ?h = "h\<lparr> mQ := Q' \<rparr>"
  have K1: "K + 1 < levels h" using Suc.prems by simp
  have sz: "size_of ?h = size_of h" by (simp add: size_of_def fun_eq_iff)
  have a1: "K + 1 < length (mQ ?h)" using K1 len Q'(2) by simp
  have a2: "length (mQ ?h ! (K + 1)) = size_of ?h (K + 1)"
    using Q'(4) rows K1 sz by simp
  let ?row = "map (coarse_tangent co rcp ?h K) [0..<size_of h (K + 1)]"
  let ?Q = "Q'[K + 1 := ?row]"
  have step: "propagateSolution_level co rcp K ?h = h\<lparr> mQ := ?Q \<rparr>"
    using propagateSolution_level_eq [OF a1 a2, of co rcp] by (simp add: sz)
  have "fold (propagateSolution_level co rcp) [0..<Suc K] h = h\<lparr> mQ := ?Q \<rparr>"
    using Q'(1) step by simp
  moreover have "length ?Q = length (mQ h)" using Q'(2) by simp
  moreover have "?Q ! 0 = mQ h ! 0" using Q'(3) by simp
  moreover have "\<forall>l>Suc K. ?Q ! l = mQ h ! l" using Q'(4) by simp
  moreover have "\<forall>l<Suc K. \<forall>i < size_of h (l + 1).
      ?Q ! (l + 1) ! i = coarse_tangent co rcp (h\<lparr> mQ := ?Q \<rparr>) l i"
  proof (intro allI impI)
    fix l i assume l: "l < Suc K" and i: "i < size_of h (l + 1)"
    have cong: "coarse_tangent co rcp (h\<lparr> mQ := ?Q \<rparr>) l i = coarse_tangent co rcp ?h l i"
      using l by (intro coarse_tangent_cong) simp_all
    show "?Q ! (l + 1) ! i = coarse_tangent co rcp (h\<lparr> mQ := ?Q \<rparr>) l i"
    proof (cases "l = K")
      case True
      then show ?thesis using i a1 cong by simp
    next
      case False
      then have "l < K" using l by simp
      then show ?thesis using Q'(5) i cong by simp
    qed
  qed
  ultimately show ?case by blast
qed

lemma norm3_normalize_v:
  assumes "0 < squaredNorm v"
  shows "norm3 (normalize_v v) = 1"
proof -
  obtain a b c where v: "v = (a, b, c)" by (cases v)
  define r where "r = sqrt (a * a + b * b + c * c)"
  have s: "0 < a * a + b * b + c * c" using assms by (simp add: v squaredNorm_def)
  then have rr: "r * r = a * a + b * b + c * c" and r0: "r \<noteq> 0"
    by (simp_all add: r_def)
  have "squaredNorm (normalize_v v) = (a * a + b * b + c * c) / (r * r)"
    by (simp add: v normalize_v_def norm3_def squaredNorm_def add_divide_distrib
        flip: r_def)
  also have "\<dots> = 1" using r0 by (simp add: rr [symmetric])
  finally show ?thesis by (simp add: norm3_def)
qed

text \<open>
  C4 (as amended).  After \<^verbatim>\<open>propagateSolution\<close> with a supported symmetry, for every level
  \<open>l\<close> and coarse vertex \<open>c\<close> with \<^verbatim>\<open>toUpper[l][c] = (p, q)\<close>: the coarse tangent starts as
  \<^verbatim>\<open>Q[l][p]\<close> when \<open>q\<close> is INVALID and as the sum of the two vectors of \<^verbatim>\<open>compat_orient\<close> on
  the parents otherwise; it is projected onto the tangent plane at \<^verbatim>\<open>N[l+1][c]\<close>; when the
  squared norm of the projection exceeds RCPOVERFLOW the stored vector is the projection
  divided by its norm, of length one; otherwise the stored vector is the projection
  itself, unchanged (it need not be zero).  Level 0 of the field is not written.
\<close>

theorem propagateSolution_tangent:
  assumes sym: "select_orient F rosy = Some compat_orient"
    and len: "length (mQ h) = levels h"
    and rows: "\<forall>l<levels h. length (mQ h ! l) = size_of h l"
    and l: "l + 1 < levels h" and c: "c < size_of h (l + 1)"
    and up: "mToUpper h ! l ! c = (p, q)"
    and rcp: "0 \<le> rcp"
    and h': "h' = snd (propagateSolution F rcp rosy h)"
    and start: "start = (if q = INVALID then mQ h' ! l ! p
                 else vadd (fst (compat_orient (mQ h' ! l ! p) (mN h ! l ! p)
                                               (mQ h' ! l ! q) (mN h ! l ! q)))
                           (snd (compat_orient (mQ h' ! l ! p) (mN h ! l ! p)
                                               (mQ h' ! l ! q) (mN h ! l ! q))))"
    and proj: "proj = vsub start (smul (mN h ! (l + 1) ! c) (dot (mN h ! (l + 1) ! c) start))"
  shows "fst (propagateSolution F rcp rosy h) = Inr () \<and>
         mQ h' ! 0 = mQ h ! 0 \<and>
         (squaredNorm proj > rcp \<longrightarrow>
            mQ h' ! (l + 1) ! c = normalize_v proj \<and> norm3 (mQ h' ! (l + 1) ! c) = 1) \<and>
         (\<not> squaredNorm proj > rcp \<longrightarrow> mQ h' ! (l + 1) ! c = proj)"
proof -
  have K: "levels h - 1 \<le> levels h - 1" by simp
  obtain Q' where Q': "propagateSolution_levels compat_orient rcp h = h\<lparr> mQ := Q' \<rparr>"
    "Q' ! 0 = mQ h ! 0"
    "\<forall>l<levels h - 1. \<forall>i < size_of h (l + 1).
       Q' ! (l + 1) ! i = coarse_tangent compat_orient rcp (h\<lparr> mQ := Q' \<rparr>) l i"
    using propagateSolution_levels_inv [OF len rows K, of compat_orient rcp]
    unfolding propagateSolution_levels_def by blast
  have res: "propagateSolution F rcp rosy h = (Inr (), h\<lparr> mQ := Q' \<rparr>)"
    using sym Q'(1) by (simp add: propagateSolution_def)
  have hq: "h' = h\<lparr> mQ := Q' \<rparr>" using h' res by simp
  have "l < levels h - 1" using l by simp
  then have "Q' ! (l + 1) ! c = coarse_tangent compat_orient rcp (h\<lparr> mQ := Q' \<rparr>) l c"
    using Q'(3) c by blast
  then have val: "mQ h' ! (l + 1) ! c = (if squaredNorm proj > rcp then normalize_v proj else proj)"
    using up by (simp add: hq coarse_tangent_def Let_def start proj)
  have "norm3 (normalize_v proj) = 1" if "squaredNorm proj > rcp"
    using that rcp by (intro norm3_normalize_v) simp
  then show ?thesis using val res hq Q'(2) by simp
qed

theorem propagateSolution_tangent_witness:
  "select_orient plain_ops 4 = Some (\<lambda>q0 n0 q1 n1. (q0, q1)) \<and>
   length (mQ merged_pair) = levels merged_pair \<and>
   length (mQ merged_pair ! 0) = size_of merged_pair 0 \<and>
   length (mQ merged_pair ! 1) = size_of merged_pair 1 \<and>
   0 + 1 < levels merged_pair \<and> 0 < size_of merged_pair (0 + 1) \<and>
   mToUpper merged_pair ! 0 ! 0 = (0, 1) \<and> (0::real) \<le> 1 / 10 ^ 38 \<and>
   squaredNorm (2, 0, 0) > 1 / 10 ^ 38 \<and>
   mQ (snd (propagateSolution plain_ops (1 / 10 ^ 38) 4 merged_pair)) ! (0 + 1) ! 0
     = normalize_v (2, 0, 0) \<and>
   norm3 (mQ (snd (propagateSolution plain_ops (1 / 10 ^ 38) 4 merged_pair)) ! (0 + 1) ! 0) = 1"
proof -
  have sym: "select_orient plain_ops 4 = Some (\<lambda>q0 n0 q1 n1. (q0, q1))"
    by (simp add: select_orient_def plain_ops_def)
  have len: "length (mQ merged_pair) = levels merged_pair"
    by (simp add: merged_pair_def levels_def)
  have rows: "\<forall>l<levels merged_pair. length (mQ merged_pair ! l) = size_of merged_pair l"
    by (simp add: merged_pair_def levels_def size_of_def less_Suc_eq)
  have rows0: "length (mQ merged_pair ! 0) = size_of merged_pair 0"
    "length (mQ merged_pair ! 1) = size_of merged_pair 1"
    by (simp_all add: merged_pair_def size_of_def)
  have l: "0 + 1 < levels merged_pair" by (simp add: merged_pair_def levels_def)
  have c: "0 < size_of merged_pair (0 + 1)" by (simp add: merged_pair_def size_of_def)
  have up: "mToUpper merged_pair ! 0 ! 0 = (0, 1)" by (simp add: merged_pair_def)
  have rcp: "(0::real) \<le> 1 / 10 ^ 38" by simp
  have q0: "mQ (snd (propagateSolution plain_ops (1 / 10 ^ 38) 4 merged_pair)) ! 0
            = mQ merged_pair ! 0"
    using propagateSolution_tangent [OF sym len rows l c up rcp refl refl refl] by simp
  have big: "squaredNorm (2, 0, 0) > 1 / 10 ^ 38" by (simp add: squaredNorm_def)
  let ?h' = "snd (propagateSolution plain_ops (1 / 10 ^ 38) 4 merged_pair)"
  have start: "(2, 0, 0) = (if 1 = INVALID then mQ ?h' ! 0 ! 0
      else vadd (fst ((\<lambda>q0 n0 q1 n1. (q0, q1)) (mQ ?h' ! 0 ! 0) (mN merged_pair ! 0 ! 0)
                        (mQ ?h' ! 0 ! 1) (mN merged_pair ! 0 ! 1)))
                (snd ((\<lambda>q0 n0 q1 n1. (q0, q1)) (mQ ?h' ! 0 ! 0) (mN merged_pair ! 0 ! 0)
                        (mQ ?h' ! 0 ! 1) (mN merged_pair ! 0 ! 1))))"
    unfolding q0 by (simp add: INVALID_def merged_pair_def)
  have proj: "(2, 0, 0) = vsub (2, 0, 0)
      (smul (mN merged_pair ! (0 + 1) ! 0) (dot (mN merged_pair ! (0 + 1) ! 0) (2, 0, 0)))"
    by (simp add: merged_pair_def)
  show ?thesis
    using propagateSolution_tangent [OF sym len rows l c up rcp refl start proj]
      sym len rows0 l c up rcp big
    by blast
qed

text \<open>
  C4 as stated fails: a projection whose squared norm does not exceed RCPOVERFLOW is
  stored as it is, here the nonzero vector \<open>(10\<^sup>-\<^sup>2\<^sup>0, 0, 0)\<close> under the threshold \<open>10\<^sup>-\<^sup>3\<^sup>8\<close>.
\<close>

theorem propagateSolution_tangent_counterexample:
  "mQ (snd (propagateSolution plain_ops (1 / 10 ^ 38) 4 tiny_tangent)) ! 1 ! 0
     = (1 / 10 ^ 20, 0, 0) \<and>
   \<not> squaredNorm (1 / 10 ^ 20, 0, 0) > 1 / 10 ^ 38 \<and>
   (1 / 10 ^ 20, 0, 0) \<noteq> Zero3"
  by (simp add: propagateSolution_def select_orient_def plain_ops_def
      propagateSolution_levels_def propagateSolution_level_def propagateSolution_vertex_def
      coarse_tangent_def levels_def size_of_def tiny_tangent_def
      MultiResolutionHierarchy_def squaredNorm_def Zero3_def)

subsection \<open>Propagation of the constraints\<close>

lemma combine_cq_cong:
  assumes "mN h' = mN h" "mCQ h' ! l = mCQ h ! l" "mCQw h' ! l = mCQw h ! l"
  shows "combine_cq co h' l u = combine_cq co h l u"
  unfolding combine_cq_def by (simp only: assms)

lemma combine_co_cong:
  assumes "mN h' = mN h" "mV h' = mV h" "mScale h' = mScale h"
    "mCQ h' ! l = mCQ h ! l" "mCO h' ! l = mCO h ! l" "mCOw h' ! l = mCOw h ! l"
  shows "combine_co cp h' l u = combine_co cp h l u"
  unfolding combine_co_def by (simp only: assms)

lemma coarse_constraint_cong:
  assumes "mToUpper h' = mToUpper h" "mN h' = mN h" "mV h' = mV h" "mScale h' = mScale h"
   "mCQ h' ! l = mCQ h ! l" "mCQw h' ! l = mCQw h ! l"
   "mCO h' ! l = mCO h ! l" "mCOw h' ! l = mCOw h ! l"
  shows "coarse_constraint co cp rcp h' l i = coarse_constraint co cp rcp h l i"
  unfolding coarse_constraint_def
  by (simp only: assms combine_cq_cong [OF assms(2,5,6)] combine_co_cong [OF assms(2,3,4,5,7,8)])

lemma coarse_constraint_cqw:
  "fst (snd (coarse_constraint co cp rcp h l i)) =
   clamp_weight (snd (combine_cq co h l (mToUpper h ! l ! i)))"
  unfolding coarse_constraint_def
  by (simp only: Let_def split_beta fst_conv snd_conv)

lemma coarse_constraint_cow:
  "snd (snd (snd (coarse_constraint co cp rcp h l i))) =
   clamp_weight (snd (combine_co cp h l (mToUpper h ! l ! i)))"
  unfolding coarse_constraint_def
  by (simp only: Let_def split_beta fst_conv snd_conv)

lemma combine_cq_nonneg:
  "0 \<le> mCQw h ! l ! fst u \<Longrightarrow> (snd u \<noteq> INVALID \<Longrightarrow> 0 \<le> mCQw h ! l ! snd u) \<Longrightarrow>
   0 \<le> snd (combine_cq co h l u)"
  by (simp add: combine_cq_def Let_def)

lemma combine_co_nonneg:
  "0 \<le> mCOw h ! l ! fst u \<Longrightarrow> (snd u \<noteq> INVALID \<Longrightarrow> 0 \<le> mCOw h ! l ! snd u) \<Longrightarrow>
   0 \<le> snd (combine_co cp h l u)"
  by (simp add: combine_co_def Let_def)

lemma clamp_weight_nonneg: "0 \<le> w \<Longrightarrow> clamp_weight w = (if 0 < w then 1 else 0)"
  by (simp add: clamp_weight_def)

lemma propagateConstraints_vertex_fold:
  assumes len: "l + 1 < length (mCQw h)" "l + 1 < length (mCOw h)"
      "l + 1 < length (mCQ h)" "l + 1 < length (mCO h)"
    and k: "k \<le> length (mCQw h ! (l + 1))" "k \<le> length (mCOw h ! (l + 1))"
      "k \<le> length (mCQ h ! (l + 1))" "k \<le> length (mCO h ! (l + 1))"
  shows "fold (propagateConstraints_vertex co cp rcp l) [0..<k] h =
         h\<lparr> mCQw := (mCQw h)[l + 1 :=
                 map (\<lambda>i. fst (snd (coarse_constraint co cp rcp h l i))) [0..<k]
                 @ drop k (mCQw h ! (l + 1))],
            mCOw := (mCOw h)[l + 1 :=
                 map (\<lambda>i. snd (snd (snd (coarse_constraint co cp rcp h l i)))) [0..<k]
                 @ drop k (mCOw h ! (l + 1))],
            mCQ := (mCQ h)[l + 1 :=
                 map (\<lambda>i. fst (coarse_constraint co cp rcp h l i)) [0..<k]
                 @ drop k (mCQ h ! (l + 1))],
            mCO := (mCO h)[l + 1 :=
                 map (\<lambda>i. fst (snd (snd (coarse_constraint co cp rcp h l i)))) [0..<k]
                 @ drop k (mCO h ! (l + 1))] \<rparr>"
  using k
proof (induction k)
  case 0
  then show ?case by simp
next
  case (Suc k)
  let ?c = "coarse_constraint co cp rcp h l"
  let ?A = "map (\<lambda>i. fst (snd (?c i))) [0..<k] @ drop k (mCQw h ! (l + 1))"
  let ?B = "map (\<lambda>i. snd (snd (snd (?c i)))) [0..<k] @ drop k (mCOw h ! (l + 1))"
  let ?C = "map (\<lambda>i. fst (?c i)) [0..<k] @ drop k (mCQ h ! (l + 1))"
  let ?D = "map (\<lambda>i. fst (snd (snd (?c i)))) [0..<k] @ drop k (mCO h ! (l + 1))"
  let ?h = "h\<lparr> mCQw := (mCQw h)[l + 1 := ?A], mCOw := (mCOw h)[l + 1 := ?B],
               mCQ := (mCQ h)[l + 1 := ?C], mCO := (mCO h)[l + 1 := ?D] \<rparr>"
  have IH: "fold (propagateConstraints_vertex co cp rcp l) [0..<k] h = ?h"
    using Suc by simp
  have c: "coarse_constraint co cp rcp ?h l k = ?c k"
    by (rule coarse_constraint_cong) simp_all
  obtain cq cqw co' cow where v: "?c k = (cq, cqw, co', cow)"
    by (cases "?c k") auto
  have upd: "?A[k := cqw] = map (\<lambda>i. fst (snd (?c i))) [0..<Suc k] @ drop (Suc k) (mCQw h ! (l + 1))"
    "?B[k := cow] = map (\<lambda>i. snd (snd (snd (?c i)))) [0..<Suc k] @ drop (Suc k) (mCOw h ! (l + 1))"
    "?C[k := cq] = map (\<lambda>i. fst (?c i)) [0..<Suc k] @ drop (Suc k) (mCQ h ! (l + 1))"
    "?D[k := co'] = map (\<lambda>i. fst (snd (snd (?c i)))) [0..<Suc k] @ drop (Suc k) (mCO h ! (l + 1))"
    using Suc.prems row_update_step [of k "mCQw h ! (l + 1)" "\<lambda>i. fst (snd (?c i))"]
      row_update_step [of k "mCOw h ! (l + 1)" "\<lambda>i. snd (snd (snd (?c i)))"]
      row_update_step [of k "mCQ h ! (l + 1)" "\<lambda>i. fst (?c i)"]
      row_update_step [of k "mCO h ! (l + 1)" "\<lambda>i. fst (snd (snd (?c i)))"]
    by (simp_all add: v)
  have "propagateConstraints_vertex co cp rcp l k ?h =
        h\<lparr> mCQw := (mCQw h)[l + 1 := ?A[k := cqw]], mCOw := (mCOw h)[l + 1 := ?B[k := cow]],
           mCQ := (mCQ h)[l + 1 := ?C[k := cq]], mCO := (mCO h)[l + 1 := ?D[k := co']] \<rparr>"
    using len c v by (simp add: propagateConstraints_vertex_def)
  then show ?case using IH upd by simp
qed

lemma propagateConstraints_level_eq:
  assumes len: "l + 1 < length (mCQw h)" "l + 1 < length (mCOw h)"
      "l + 1 < length (mCQ h)" "l + 1 < length (mCO h)"
    and rows: "length (mCQw h ! (l + 1)) = size_of h (l + 1)"
      "length (mCOw h ! (l + 1)) = size_of h (l + 1)"
      "length (mCQ h ! (l + 1)) = size_of h (l + 1)"
      "length (mCO h ! (l + 1)) = size_of h (l + 1)"
  shows "propagateConstraints_level co cp rcp l h =
         h\<lparr> mCQw := (mCQw h)[l + 1 :=
                 map (\<lambda>i. fst (snd (coarse_constraint co cp rcp h l i))) [0..<size_of h (l + 1)]],
            mCOw := (mCOw h)[l + 1 :=
                 map (\<lambda>i. snd (snd (snd (coarse_constraint co cp rcp h l i)))) [0..<size_of h (l + 1)]],
            mCQ := (mCQ h)[l + 1 :=
                 map (\<lambda>i. fst (coarse_constraint co cp rcp h l i)) [0..<size_of h (l + 1)]],
            mCO := (mCO h)[l + 1 :=
                 map (\<lambda>i. fst (snd (snd (coarse_constraint co cp rcp h l i)))) [0..<size_of h (l + 1)]] \<rparr>"
  using propagateConstraints_vertex_fold [OF len, of "size_of h (l + 1)" co cp rcp] rows
  by (simp add: propagateConstraints_level_def)

lemma propagateConstraints_levels_inv:
  assumes al: "constraints_allocated h" and K: "K \<le> levels h - 1"
  shows "\<exists>A B C D. fold (propagateConstraints_level co cp rcp) [0..<K] h
             = h\<lparr> mCQw := A, mCOw := B, mCQ := C, mCO := D \<rparr> \<and>
           length A = levels h \<and> length B = levels h \<and>
           length C = levels h \<and> length D = levels h \<and>
           A ! 0 = mCQw h ! 0 \<and> B ! 0 = mCOw h ! 0 \<and>
           (\<forall>l>K. A ! l = mCQw h ! l \<and> B ! l = mCOw h ! l \<and>
                   C ! l = mCQ h ! l \<and> D ! l = mCO h ! l) \<and>
           (\<forall>l<K. \<forall>i < size_of h (l + 1).
              (C ! (l + 1) ! i, A ! (l + 1) ! i, D ! (l + 1) ! i, B ! (l + 1) ! i) =
              coarse_constraint co cp rcp (h\<lparr> mCQw := A, mCOw := B, mCQ := C, mCO := D \<rparr>) l i)"
  using K
proof (induction K)
  case 0
  show ?case
    using al
    by (intro exI [of _ "mCQw h"] exI [of _ "mCOw h"] exI [of _ "mCQ h"] exI [of _ "mCO h"])
       (simp add: constraints_allocated_def)
next
  case (Suc K)
  then obtain A B C D where
    f: "fold (propagateConstraints_level co cp rcp) [0..<K] h
          = h\<lparr> mCQw := A, mCOw := B, mCQ := C, mCO := D \<rparr>"
    and ln: "length A = levels h" "length B = levels h" "length C = levels h"
      "length D = levels h"
    and z: "A ! 0 = mCQw h ! 0" "B ! 0 = mCOw h ! 0"
    and later: "\<forall>l>K. A ! l = mCQw h ! l \<and> B ! l = mCOw h ! l \<and>
                   C ! l = mCQ h ! l \<and> D ! l = mCO h ! l"
    and dn: "\<forall>l<K. \<forall>i < size_of h (l + 1).
              (C ! (l + 1) ! i, A ! (l + 1) ! i, D ! (l + 1) ! i, B ! (l + 1) ! i) =
              coarse_constraint co cp rcp (h\<lparr> mCQw := A, mCOw := B, mCQ := C, mCO := D \<rparr>) l i"
    by auto
  let ?h = "h\<lparr> mCQw := A, mCOw := B, mCQ := C, mCO := D \<rparr>"
  let ?c = "coarse_constraint co cp rcp ?h K"
  let ?n = "size_of h (K + 1)"
  have K1: "K + 1 < levels h" using Suc.prems by simp
  have sz: "size_of ?h = size_of h" by (simp add: size_of_def fun_eq_iff)
  have rows: "length (A ! (K + 1)) = ?n" "length (B ! (K + 1)) = ?n"
    "length (C ! (K + 1)) = ?n" "length (D ! (K + 1)) = ?n"
    using later al K1 by (simp_all add: constraints_allocated_def)
  let ?A = "A[K + 1 := map (\<lambda>i. fst (snd (?c i))) [0..<?n]]"
  let ?B = "B[K + 1 := map (\<lambda>i. snd (snd (snd (?c i)))) [0..<?n]]"
  let ?C = "C[K + 1 := map (\<lambda>i. fst (?c i)) [0..<?n]]"
  let ?D = "D[K + 1 := map (\<lambda>i. fst (snd (snd (?c i)))) [0..<?n]]"
  let ?g = "h\<lparr> mCQw := ?A, mCOw := ?B, mCQ := ?C, mCO := ?D \<rparr>"
  have step: "propagateConstraints_level co cp rcp K ?h = ?g"
    using propagateConstraints_level_eq [of K ?h co cp rcp] K1 ln rows
    by (simp add: sz)
  have "fold (propagateConstraints_level co cp rcp) [0..<Suc K] h = ?g"
    using f step by simp
  moreover have "length ?A = levels h" "length ?B = levels h" "length ?C = levels h"
    "length ?D = levels h" using ln by simp_all
  moreover have "?A ! 0 = mCQw h ! 0" "?B ! 0 = mCOw h ! 0" using z by simp_all
  moreover have "\<forall>l>Suc K. ?A ! l = mCQw h ! l \<and> ?B ! l = mCOw h ! l \<and>
                   ?C ! l = mCQ h ! l \<and> ?D ! l = mCO h ! l"
    using later by simp
  moreover have "\<forall>l<Suc K. \<forall>i < size_of h (l + 1).
      (?C ! (l + 1) ! i, ?A ! (l + 1) ! i, ?D ! (l + 1) ! i, ?B ! (l + 1) ! i) =
      coarse_constraint co cp rcp ?g l i"
  proof (intro allI impI)
    fix l i assume l: "l < Suc K" and i: "i < size_of h (l + 1)"
    have cong: "coarse_constraint co cp rcp ?g l i = coarse_constraint co cp rcp ?h l i"
      using l by (intro coarse_constraint_cong) simp_all
    show "(?C ! (l + 1) ! i, ?A ! (l + 1) ! i, ?D ! (l + 1) ! i, ?B ! (l + 1) ! i) =
          coarse_constraint co cp rcp ?g l i"
    proof (cases "l = K")
      case True
      then show ?thesis using i K1 ln cong by simp
    next
      case False
      then have "l < K" using l by simp
      then show ?thesis using dn i cong by simp
    qed
  qed
  ultimately show ?case by blast
qed

text \<open>
  C5.  After \<^verbatim>\<open>propagateConstraints\<close> with supported symmetries, on a hierarchy whose
  constraint arrays are allocated, whose \<^verbatim>\<open>toUpper\<close> entries are vertices of the finer level
  and whose level-0 constraint weights are nonnegative: every weight \<^verbatim>\<open>CQw[l+1][i]\<close> and
  \<^verbatim>\<open>COw[l+1][i]\<close> is 0 or 1, namely 1 when the combined weight of the parents is positive
  and 0 otherwise.
\<close>

theorem propagateConstraints_weights:
  assumes sym: "select_orient F rosy = Some compat_orient" "select_pos F posy = Some compat_pos"
    and al: "constraints_allocated h"
    and up: "\<forall>l i. l + 1 < levels h \<longrightarrow> i < size_of h (l + 1) \<longrightarrow>
               fst (mToUpper h ! l ! i) < size_of h l \<and>
               (snd (mToUpper h ! l ! i) = INVALID \<or> snd (mToUpper h ! l ! i) < size_of h l)"
    and nonneg: "\<forall>i < size_of h 0. 0 \<le> mCQw h ! 0 ! i \<and> 0 \<le> mCOw h ! 0 ! i"
    and l: "l + 1 < levels h" and i: "i < size_of h (l + 1)"
    and h': "h' = snd (propagateConstraints F rcp rosy posy h)"
  shows "fst (propagateConstraints F rcp rosy posy h) = Inr () \<and>
         mCQw h' ! (l + 1) ! i \<in> {0, 1} \<and> mCOw h' ! (l + 1) ! i \<in> {0, 1} \<and>
         mCQw h' ! (l + 1) ! i =
           (if 0 < snd (combine_cq compat_orient h' l (mToUpper h ! l ! i)) then 1 else 0) \<and>
         mCOw h' ! (l + 1) ! i =
           (if 0 < snd (combine_co compat_pos h' l (mToUpper h ! l ! i)) then 1 else 0)"
proof -
  have lv: "levels h \<noteq> 0" using l by simp
  have K: "levels h - 1 \<le> levels h - 1" by simp
  obtain A B C D where
    f: "propagateConstraints_levels compat_orient compat_pos rcp h
          = h\<lparr> mCQw := A, mCOw := B, mCQ := C, mCO := D \<rparr>"
    and z: "A ! 0 = mCQw h ! 0" "B ! 0 = mCOw h ! 0"
    and dn: "\<forall>l<levels h - 1. \<forall>i < size_of h (l + 1).
              (C ! (l + 1) ! i, A ! (l + 1) ! i, D ! (l + 1) ! i, B ! (l + 1) ! i) =
              coarse_constraint compat_orient compat_pos rcp
                (h\<lparr> mCQw := A, mCOw := B, mCQ := C, mCO := D \<rparr>) l i"
    using propagateConstraints_levels_inv [OF al K, of compat_orient compat_pos rcp]
    unfolding propagateConstraints_levels_def by blast
  let ?g = "h\<lparr> mCQw := A, mCOw := B, mCQ := C, mCO := D \<rparr>"
  have res: "propagateConstraints F rcp rosy posy h = (Inr (), ?g)"
    using sym lv f by (simp add: propagateConstraints_def)
  have hg: "h' = ?g" using h' res by simp
  have wA: "A ! (m + 1) ! j = clamp_weight (snd (combine_cq compat_orient ?g m (mToUpper h ! m ! j)))"
    and wB: "B ! (m + 1) ! j = clamp_weight (snd (combine_co compat_pos ?g m (mToUpper h ! m ! j)))"
    if "m + 1 < levels h" "j < size_of h (m + 1)" for m j
  proof -
    have "m < levels h - 1" using that by simp
    then have e: "(C ! (m + 1) ! j, A ! (m + 1) ! j, D ! (m + 1) ! j, B ! (m + 1) ! j) =
        coarse_constraint compat_orient compat_pos rcp ?g m j"
      using dn that by blast
    have "A ! (m + 1) ! j = fst (snd (coarse_constraint compat_orient compat_pos rcp ?g m j))"
      by (simp add: e [symmetric])
    then show "A ! (m + 1) ! j =
        clamp_weight (snd (combine_cq compat_orient ?g m (mToUpper h ! m ! j)))"
      by (simp add: coarse_constraint_cqw)
    have "B ! (m + 1) ! j = snd (snd (snd (coarse_constraint compat_orient compat_pos rcp ?g m j)))"
      by (simp add: e [symmetric])
    then show "B ! (m + 1) ! j =
        clamp_weight (snd (combine_co compat_pos ?g m (mToUpper h ! m ! j)))"
      by (simp add: coarse_constraint_cow)
  qed
  have pos: "m < levels h \<Longrightarrow> \<forall>j < size_of h m. 0 \<le> A ! m ! j \<and> 0 \<le> B ! m ! j" for m
  proof (induction m)
    case 0
    then show ?case using nonneg z by simp
  next
    case (Suc m)
    then have IH: "\<forall>j < size_of h m. 0 \<le> A ! m ! j \<and> 0 \<le> B ! m ! j" by simp
    show ?case
    proof (intro allI impI)
      fix j assume j: "j < size_of h (Suc m)"
      have u: "fst (mToUpper h ! m ! j) < size_of h m"
        "snd (mToUpper h ! m ! j) = INVALID \<or> snd (mToUpper h ! m ! j) < size_of h m"
        using up Suc.prems j by simp_all
      have "0 \<le> snd (combine_cq compat_orient ?g m (mToUpper h ! m ! j))"
        using IH u by (intro combine_cq_nonneg) auto
      moreover have "0 \<le> snd (combine_co compat_pos ?g m (mToUpper h ! m ! j))"
        using IH u by (intro combine_co_nonneg) auto
      ultimately show "0 \<le> A ! Suc m ! j \<and> 0 \<le> B ! Suc m ! j"
        using wA [of m j] wB [of m j] Suc.prems j by (simp add: clamp_weight_def)
    qed
  qed
  have u: "fst (mToUpper h ! l ! i) < size_of h l"
    "snd (mToUpper h ! l ! i) = INVALID \<or> snd (mToUpper h ! l ! i) < size_of h l"
    using up l i by simp_all
  have ll: "l < levels h" using l by simp
  have cq: "0 \<le> snd (combine_cq compat_orient ?g l (mToUpper h ! l ! i))"
    using pos [OF ll] u by (intro combine_cq_nonneg) auto
  have co: "0 \<le> snd (combine_co compat_pos ?g l (mToUpper h ! l ! i))"
    using pos [OF ll] u by (intro combine_co_nonneg) auto
  show ?thesis
    using wA [OF l i] wB [OF l i] clamp_weight_nonneg [OF cq] clamp_weight_nonneg [OF co] res
    by (simp add: hg)
qed

theorem propagateConstraints_weights_witness:
  "select_orient plain_ops 4 = Some (\<lambda>q0 n0 q1 n1. (q0, q1)) \<and>
   select_pos plain_ops 4 = Some (\<lambda>v0 n0 q0 o0 v1 n1 q1 o1 s t. (o0, o1)) \<and>
   constraints_allocated merged_pair \<and>
   size_of merged_pair 0 = 2 \<and>
   0 \<le> mCQw merged_pair ! 0 ! 0 \<and> 0 \<le> mCOw merged_pair ! 0 ! 0 \<and>
   0 \<le> mCQw merged_pair ! 0 ! 1 \<and> 0 \<le> mCOw merged_pair ! 0 ! 1 \<and>
   0 + 1 < levels merged_pair \<and> 0 < size_of merged_pair (0 + 1) \<and>
   fst (propagateConstraints plain_ops (1 / 10 ^ 38) 4 4 merged_pair) = Inr () \<and>
   mCQw (snd (propagateConstraints plain_ops (1 / 10 ^ 38) 4 4 merged_pair)) ! (0 + 1) ! 0 \<in> {0, 1} \<and>
   mCOw (snd (propagateConstraints plain_ops (1 / 10 ^ 38) 4 4 merged_pair)) ! (0 + 1) ! 0 \<in> {0, 1}"
proof -
  have sym: "select_orient plain_ops 4 = Some (\<lambda>q0 n0 q1 n1. (q0, q1))"
    "select_pos plain_ops 4 = Some (\<lambda>v0 n0 q0 o0 v1 n1 q1 o1 s t. (o0, o1))"
    by (simp_all add: select_orient_def select_pos_def plain_ops_def)
  have al: "constraints_allocated merged_pair"
    by (simp add: constraints_allocated_def merged_pair_def levels_def size_of_def less_Suc_eq)
  have up: "\<forall>l i. l + 1 < levels merged_pair \<longrightarrow> i < size_of merged_pair (l + 1) \<longrightarrow>
               fst (mToUpper merged_pair ! l ! i) < size_of merged_pair l \<and>
               (snd (mToUpper merged_pair ! l ! i) = INVALID \<or>
                snd (mToUpper merged_pair ! l ! i) < size_of merged_pair l)"
    by (simp add: merged_pair_def levels_def size_of_def)
  have nonneg: "\<forall>i < size_of merged_pair 0.
      0 \<le> mCQw merged_pair ! 0 ! i \<and> 0 \<le> mCOw merged_pair ! 0 ! i"
    by (simp add: merged_pair_def size_of_def less_Suc_eq)
  have l: "0 + 1 < levels merged_pair" by (simp add: merged_pair_def levels_def)
  have i: "0 < size_of merged_pair (0 + 1)" by (simp add: merged_pair_def size_of_def)
  have nn: "size_of merged_pair 0 = 2"
    "0 \<le> mCQw merged_pair ! 0 ! 0" "0 \<le> mCOw merged_pair ! 0 ! 0"
    "0 \<le> mCQw merged_pair ! 0 ! 1" "0 \<le> mCOw merged_pair ! 0 ! 1"
    by (simp_all add: merged_pair_def size_of_def)
  show ?thesis
    using propagateConstraints_weights [OF sym al up nonneg l i refl] sym al nn l i
    by blast
qed

subsection \<open>The greedy matching of downsample_graph\<close>

lemma flagged_replicate [simp]: "flagged (replicate n False) = {}"
  by (auto simp: flagged_def)

lemma finite_flagged [simp]: "finite (flagged fl)"
  by (simp add: flagged_def)

lemma flagged_subset: "flagged fl \<subseteq> {..<length fl}"
  by (auto simp: flagged_def)

lemma card_flagged_le: "card (flagged fl) \<le> length fl"
  using card_mono [OF _ flagged_subset [of fl]] by simp

lemma flagged_update:
  "i < length fl \<Longrightarrow> flagged (fl[i := True]) = insert i (flagged fl)"
  by (auto simp: flagged_def nth_list_update)

lemma endpoints_append [simp]: "endpoints (xs @ ys) = endpoints xs @ endpoints ys"
  by (simp add: endpoints_def)

lemma endpoints_single [simp]: "endpoints [e] = [ent_i e, ent_j e]"
  by (simp add: endpoints_def)

lemma endpoints_Nil [simp]: "endpoints [] = []"
  by (simp add: endpoints_def)

lemma length_endpoints [simp]: "length (endpoints es) = 2 * length es"
  by (induction es) (simp_all add: endpoints_def)

lemma matching_length:
  "matching es fl acc = (fl', acc') \<Longrightarrow> length fl' = length fl"
  by (induction es fl acc rule: matching.induct) (auto split: if_splits)

lemma matching_extends:
  "matching es fl acc = (fl', acc') \<Longrightarrow> \<exists>xs. acc' = acc @ xs \<and> set xs \<subseteq> set es"
proof (induction es fl acc rule: matching.induct)
  case (1 fl acc)
  then show ?case by simp
next
  case (2 e es fl acc)
  show ?case
  proof (cases "fl ! ent_i e \<or> fl ! ent_j e")
    case True
    then have "matching es fl acc = (fl', acc')" using "2.prems" by simp
    from "2.IH"(1) [OF True this] show ?thesis by auto
  next
    case False
    then have "matching es (fl[ent_i e := True, ent_j e := True]) (acc @ [e]) = (fl', acc')"
      using "2.prems" by simp
    from "2.IH"(2) [OF False this] obtain xs where "acc' = (acc @ [e]) @ xs" "set xs \<subseteq> set es"
      by blast
    then show ?thesis by (intro exI [of _ "e # xs"]) auto
  qed
qed

text \<open>Every accepted entry flags at least one vertex that was not flagged before.\<close>

lemma matching_count:
  assumes "\<forall>e\<in>set es. ent_i e < length fl \<and> ent_j e < length fl"
    and "matching es fl acc = (fl', acc')"
  shows "length acc' + card (flagged fl) \<le> length acc + card (flagged fl')"
  using assms
proof (induction es fl acc rule: matching.induct)
  case (1 fl acc)
  then show ?case by simp
next
  case (2 e es fl acc)
  show ?case
  proof (cases "fl ! ent_i e \<or> fl ! ent_j e")
    case True
    then have "matching es fl acc = (fl', acc')" using "2.prems" by simp
    from "2.IH"(1) [OF True _ this] "2.prems"(1) show ?thesis by simp
  next
    case False
    let ?fl = "fl[ent_i e := True, ent_j e := True]"
    have m: "matching es ?fl (acc @ [e]) = (fl', acc')"
      using False "2.prems" by simp
    have r: "ent_i e < length fl" "ent_j e < length fl" using "2.prems"(1) by simp_all
    have fl: "flagged ?fl = insert (ent_j e) (insert (ent_i e) (flagged fl))"
      using r by (simp add: flagged_update)
    have "ent_i e \<notin> flagged fl" using False by (simp add: flagged_def)
    then have "card (flagged fl) + 1 \<le> card (flagged ?fl)"
      unfolding fl by (simp add: card_insert_if)
    moreover have "length acc' + card (flagged ?fl) \<le> length (acc @ [e]) + card (flagged fl')"
      using "2.IH"(2) [OF False _ m] "2.prems"(1) by simp
    ultimately show ?thesis by simp
  qed
qed

text \<open>Without self-loops the accepted entries are a matching: their endpoints are
  pairwise distinct, and they are the flagged vertices.\<close>

lemma matching_endpoints:
  assumes "\<forall>e\<in>set es. ent_i e < length fl \<and> ent_j e < length fl \<and> ent_i e \<noteq> ent_j e"
    and "distinct (endpoints acc)" and "set (endpoints acc) = flagged fl"
    and "matching es fl acc = (fl', acc')"
  shows "distinct (endpoints acc') \<and> set (endpoints acc') = flagged fl'"
  using assms
proof (induction es fl acc rule: matching.induct)
  case (1 fl acc)
  then show ?case by simp
next
  case (2 e es fl acc)
  show ?case
  proof (cases "fl ! ent_i e \<or> fl ! ent_j e")
    case True
    then have "matching es fl acc = (fl', acc')" using "2.prems" by simp
    from "2.IH"(1) [OF True _ "2.prems"(2,3) this] "2.prems"(1) show ?thesis by simp
  next
    case False
    let ?fl = "fl[ent_i e := True, ent_j e := True]"
    have m: "matching es ?fl (acc @ [e]) = (fl', acc')"
      using False "2.prems" by simp
    have r: "ent_i e < length fl" "ent_j e < length fl" "ent_i e \<noteq> ent_j e"
      using "2.prems"(1) by simp_all
    have fl: "flagged ?fl = insert (ent_j e) (insert (ent_i e) (flagged fl))"
      using r by (simp add: flagged_update)
    have new: "ent_i e \<notin> flagged fl" "ent_j e \<notin> flagged fl"
      using False r by (simp_all add: flagged_def)
    have d: "distinct (endpoints (acc @ [e]))"
      using "2.prems"(2,3) new r by simp
    have s: "set (endpoints (acc @ [e])) = flagged ?fl"
      using "2.prems"(3) fl by auto
    have "\<forall>e\<in>set es. ent_i e < length ?fl \<and> ent_j e < length ?fl \<and> ent_i e \<noteq> ent_j e"
      using "2.prems"(1) by simp
    from "2.IH"(2) [OF False this d s m] show ?thesis .
  qed
qed

subsection \<open>The arrays of the coarse level\<close>

lemma fold_update_upt:
  "k \<le> length xs \<Longrightarrow>
   fold (\<lambda>i xs. xs[i := f i]) [0..<k] xs = map f [0..<k] @ drop k xs"
proof (induction k)
  case 0
  then show ?case by simp
next
  case (Suc k)
  then have "k < length xs" by simp
  from row_update_step [OF this, of f] Suc show ?case by simp
qed

lemma collapse_A_p:
  "A_p (fold (collapse_pair rcp V N A es) ks c) =
   fold (\<lambda>i xs. xs[i := A ! ent_i (es ! i) + A ! ent_j (es ! i)]) ks (A_p c)"
  by (induction ks arbitrary: c) (simp_all add: collapse_pair_def Let_def)

lemma collapse_to_upper:
  "to_upper (fold (collapse_pair rcp V N A es) ks c) =
   fold (\<lambda>i xs. xs[i := (ent_i (es ! i), ent_j (es ! i))]) ks (to_upper c)"
  by (induction ks arbitrary: c) (simp_all add: collapse_pair_def Let_def)

lemma collapse_to_lower:
  "to_lower (fold (collapse_pair rcp V N A es) ks c) =
   fold (\<lambda>i xs. xs[ent_i (es ! i) := i, ent_j (es ! i) := i]) ks (to_lower c)"
  by (induction ks arbitrary: c) (simp_all add: collapse_pair_def Let_def)

lemma collapse_lengths:
  "length (V_p (fold (collapse_pair rcp V N A es) ks c)) = length (V_p c) \<and>
   length (N_p (fold (collapse_pair rcp V N A es) ks c)) = length (N_p c)"
  by (induction ks arbitrary: c) (simp_all add: collapse_pair_def Let_def)

text \<open>\<^verbatim>\<open>to_lower\<close> after the loop over the pairs.\<close>

lemma to_lower_pairs_length [simp]:
  "length (fold (\<lambda>i xs. xs[ent_i (es ! i) := i, ent_j (es ! i) := i]) ks xs) = length xs"
  by (induction ks arbitrary: xs) simp_all

lemma to_lower_pairs_other:
  "v \<notin> set (endpoints (take k es)) \<Longrightarrow> k \<le> length es \<Longrightarrow>
   fold (\<lambda>i xs. xs[ent_i (es ! i) := i, ent_j (es ! i) := i]) [0..<k] xs ! v = xs ! v"
proof (induction k)
  case 0
  then show ?case by simp
next
  case (Suc k)
  then have "take (Suc k) es = take k es @ [es ! k]"
    by (simp add: take_Suc_conv_app_nth)
  then show ?case using Suc by simp
qed

lemma to_lower_pairs_bound:
  assumes "v \<in> set (endpoints (take k es))" and "k \<le> length es"
    and "\<forall>e\<in>set es. ent_i e < length xs \<and> ent_j e < length xs"
  shows "fold (\<lambda>i xs. xs[ent_i (es ! i) := i, ent_j (es ! i) := i]) [0..<k] xs ! v < k"
  using assms(1,2)
proof (induction k)
  case 0
  then show ?case by simp
next
  case (Suc k)
  let ?f = "fold (\<lambda>i xs. xs[ent_i (es ! i) := i, ent_j (es ! i) := i]) [0..<k] xs"
  have k: "k < length es" using Suc.prems by simp
  then have t: "take (Suc k) es = take k es @ [es ! k]"
    by (simp add: take_Suc_conv_app_nth)
  have r: "ent_i (es ! k) < length ?f" "ent_j (es ! k) < length ?f"
    using assms(3) k by simp_all
  show ?case
  proof (cases "v = ent_i (es ! k) \<or> v = ent_j (es ! k)")
    case True
    then show ?thesis using r by (auto simp: nth_list_update)
  next
    case False
    then have "v \<in> set (endpoints (take k es))" using Suc.prems t by simp
    then have "?f ! v < k" using Suc.IH k by simp
    then show ?thesis using False by simp
  qed
qed

lemma fill_eq:
  "off + length (unmatched fl os) \<le> length xs \<Longrightarrow>
   fill f fl os off xs =
   take off xs @ map f (unmatched fl os) @ drop (off + length (unmatched fl os)) xs"
proof (induction os arbitrary: off xs)
  case Nil
  then show ?case by (simp add: unmatched_def)
next
  case (Cons i os)
  show ?case
  proof (cases "fl ! i")
    case True
    then show ?thesis using Cons by (simp add: unmatched_def)
  next
    case False
    then have u: "unmatched fl (i # os) = i # unmatched fl os" by (simp add: unmatched_def)
    have off: "off < length xs" using Cons.prems u by simp
    have "fill f fl (i # os) off xs = fill f fl os (off + 1) (xs[off := f i])"
      using False by simp
    also have "\<dots> = take (off + 1) (xs[off := f i]) @ map f (unmatched fl os)
        @ drop (off + 1 + length (unmatched fl os)) (xs[off := f i])"
      using Cons.prems u by (intro Cons.IH) simp
    also have "take (off + 1) (xs[off := f i]) = take off xs @ [f i]"
      using off by (simp add: take_Suc_conv_app_nth)
    also have "drop (off + 1 + length (unmatched fl os)) (xs[off := f i])
        = drop (off + length (unmatched fl (i # os))) xs"
      using u by simp
    finally show ?thesis using u by simp
  qed
qed

lemma copy_offset:
  "fst (fold (copy_uncollapsed V N A fl) os (off, c)) = off + length (unmatched fl os)"
  by (induction os arbitrary: off c) (simp_all add: copy_uncollapsed_def unmatched_def)

lemma copy_A_p:
  "A_p (snd (fold (copy_uncollapsed V N A fl) os (off, c))) =
   fill (\<lambda>i. A ! i) fl os off (A_p c)"
  by (induction os arbitrary: off c) (simp_all add: copy_uncollapsed_def)

lemma copy_V_p:
  "V_p (snd (fold (copy_uncollapsed V N A fl) os (off, c))) =
   fill (\<lambda>i. V ! i) fl os off (V_p c)"
  by (induction os arbitrary: off c) (simp_all add: copy_uncollapsed_def)

lemma copy_N_p:
  "N_p (snd (fold (copy_uncollapsed V N A fl) os (off, c))) =
   fill (\<lambda>i. N ! i) fl os off (N_p c)"
  by (induction os arbitrary: off c) (simp_all add: copy_uncollapsed_def)

lemma copy_to_upper:
  "to_upper (snd (fold (copy_uncollapsed V N A fl) os (off, c))) =
   fill (\<lambda>i. (i, INVALID)) fl os off (to_upper c)"
  by (induction os arbitrary: off c) (simp_all add: copy_uncollapsed_def)

lemma length_fill [simp]: "length (fill f fl os off xs) = length xs"
  by (induction os arbitrary: off xs) simp_all

lemma copy_to_lower_length [simp]:
  "length (to_lower (snd (fold (copy_uncollapsed V N A fl) os (off, c)))) = length (to_lower c)"
  by (induction os arbitrary: off c) (simp_all add: copy_uncollapsed_def)

lemma copy_to_lower_other:
  "v \<notin> set (unmatched fl os) \<Longrightarrow>
   to_lower (snd (fold (copy_uncollapsed V N A fl) os (off, c))) ! v = to_lower c ! v"
  by (induction os arbitrary: off c) (auto simp: copy_uncollapsed_def unmatched_def)

lemma copy_to_lower_bound:
  "v \<in> set (unmatched fl os) \<Longrightarrow> v < length (to_lower c) \<Longrightarrow>
   to_lower (snd (fold (copy_uncollapsed V N A fl) os (off, c))) ! v
     < off + length (unmatched fl os)"
proof (induction os arbitrary: off c)
  case Nil
  then show ?case by (simp add: unmatched_def)
next
  case (Cons i os)
  show ?case
  proof (cases "fl ! i")
    case True
    then show ?thesis using Cons by (simp add: copy_uncollapsed_def unmatched_def)
  next
    case False
    let ?c = "c\<lparr> V_p := (V_p c)[off := V ! i], N_p := (N_p c)[off := N ! i],
                 A_p := (A_p c)[off := A ! i],
                 to_upper := (to_upper c)[off := (i, INVALID)],
                 to_lower := (to_lower c)[i := off] \<rparr>"
    have st: "fold (copy_uncollapsed V N A fl) (i # os) (off, c) =
              fold (copy_uncollapsed V N A fl) os (off + 1, ?c)"
      using False by (simp add: copy_uncollapsed_def)
    have u: "unmatched fl (i # os) = i # unmatched fl os"
      using False by (simp add: unmatched_def)
    show ?thesis
    proof (cases "v \<in> set (unmatched fl os)")
      case True
      then have "to_lower (snd (fold (copy_uncollapsed V N A fl) os (off + 1, ?c))) ! v
          < off + 1 + length (unmatched fl os)"
        using Cons.prems(2) by (intro Cons.IH) simp_all
      then show ?thesis using st u by simp
    next
      case False
      then have "v = i" using Cons.prems(1) u by simp
      have "to_lower (snd (fold (copy_uncollapsed V N A fl) os (off + 1, ?c))) ! v
          = to_lower ?c ! v"
        using False by (rule copy_to_lower_other)
      then show ?thesis using st u \<open>v = i\<close> Cons.prems(2) by simp
    qed
  qed
qed

subsection \<open>The entries\<close>

lemma take_as_map_nth: "n \<le> length xs \<Longrightarrow> take n xs = map (\<lambda>i. xs ! i) [0..<n]"
  by (simp add: list_eq_iff_nth_eq)

lemma nLinks_eq: "ids_in_range n adj \<Longrightarrow> nLinks adj n = length (concat adj)"
  by (simp add: nLinks_def ids_in_range_def)

lemma length_make_entries:
  "ids_in_range n adj \<Longrightarrow> length (make_entries adj N A n) = nLinks adj n"
proof -
  assume a: "ids_in_range n adj"
  then have "n \<le> length adj" by (simp add: ids_in_range_def)
  then have "length (concat (map (\<lambda>i. map (\<lambda>link. (i, link_id link, score N A i (link_id link)))
      (adj ! i)) [0..<n])) = length (concat (take n adj))"
    by (simp add: length_concat take_as_map_nth o_def)
  then show ?thesis using a by (simp add: make_entries_def nLinks_eq ids_in_range_def)
qed

lemma set_make_entries:
  "e \<in> set (make_entries adj N A n) \<Longrightarrow>
   ent_i e < n \<and> (\<exists>link\<in>set (adj ! ent_i e). ent_j e = link_id link)"
proof -
  assume "e \<in> set (make_entries adj N A n)"
  then have "e \<in> set (concat (map (\<lambda>i. map (\<lambda>link. (i, link_id link, score N A i (link_id link)))
      (adj ! i)) [0..<n]))"
    unfolding make_entries_def by (rule in_set_takeD)
  then show ?thesis by (auto simp: ent_i_def ent_j_def)
qed

lemma mset_sort_entries:
  "platform_ok P \<Longrightarrow> mset (sort_entries P det es) = mset es"
  by (simp add: sort_entries_def platform_ok_def)

lemma set_sort_entries:
  "platform_ok P \<Longrightarrow> set (sort_entries P det es) = set es"
  using mset_sort_entries [THEN mset_eq_setD] by blast

lemma length_sort_entries:
  "platform_ok P \<Longrightarrow> length (sort_entries P det es) = length es"
  using mset_sort_entries [THEN mset_eq_length] by blast

lemma entries_in_range:
  assumes "platform_ok P" and "ids_in_range n adj"
  shows "\<forall>e\<in>set (sort_entries P det (make_entries adj N A n)). ent_i e < n \<and> ent_j e < n"
proof
  fix e assume "e \<in> set (sort_entries P det (make_entries adj N A n))"
  then have "e \<in> set (make_entries adj N A n)" using assms(1) by (simp add: set_sort_entries)
  then obtain link where "ent_i e < n" "link \<in> set (adj ! ent_i e)" "ent_j e = link_id link"
    using set_make_entries by blast
  then show "ent_i e < n \<and> ent_j e < n" using assms(2) by (auto simp: ids_in_range_def)
qed

lemma entries_no_loop:
  assumes "platform_ok P" and "no_self_loops n adj"
  shows "\<forall>e\<in>set (sort_entries P det (make_entries adj N A n)). ent_i e \<noteq> ent_j e"
proof
  fix e assume "e \<in> set (sort_entries P det (make_entries adj N A n))"
  then have "e \<in> set (make_entries adj N A n)" using assms(1) by (simp add: set_sort_entries)
  then obtain link where "ent_i e < n" "link \<in> set (adj ! ent_i e)" "ent_j e = link_id link"
    using set_make_entries by blast
  then show "ent_i e \<noteq> ent_j e" using assms(2) unfolding no_self_loops_def by metis
qed

lemma sub_u32_eq: "k \<le> n \<Longrightarrow> n < 2 ^ 32 \<Longrightarrow> sub_u32 n k = n - k"
proof -
  assume a: "k \<le> n" "n < 2 ^ 32"
  then have k: "k mod 2 ^ 32 = k" by simp
  have "n + 2 ^ 32 - k = (n - k) + 2 ^ 32" using a by simp
  then have "(n + 2 ^ 32 - k) mod 2 ^ 32 = (n - k) mod 2 ^ 32"
    by (metis mod_add_self2)
  also have "\<dots> = n - k" using a by simp
  finally show ?thesis unfolding sub_u32_def k .
qed

subsection \<open>The vertex count of the coarse level\<close>

lemma mset_vertex_order: "platform_ok P \<Longrightarrow> mset (vertex_order P det n) = mset [0..<n]"
  unfolding vertex_order_def platform_ok_def by (cases det) simp_all

lemma set_vertex_order: "platform_ok P \<Longrightarrow> set (vertex_order P det n) = {..<n}"
proof -
  assume "platform_ok P"
  then have "set (vertex_order P det n) = set [0..<n]"
    by (intro mset_eq_setD mset_vertex_order)
  then show ?thesis by (simp add: lessThan_atLeast0)
qed

lemma distinct_vertex_order: "platform_ok P \<Longrightarrow> distinct (vertex_order P det n)"
proof -
  assume "platform_ok P"
  then have "distinct (vertex_order P det n) = distinct [0..<n]"
    by (intro mset_eq_imp_distinct_iff mset_vertex_order)
  then show ?thesis by simp
qed


lemma downsample_arrays_unfold:
  assumes "matching (sort_entries P det (make_entries adj N A (length V)))
             (replicate (length V) False) [] = (fl, acc)"
  shows "downsample_arrays P adj V N A det =
     snd (fold (copy_uncollapsed V N A fl) (vertex_order P det (length V))
            (length acc,
             fold (collapse_pair (RCPOVERFLOW P) V N A acc) [0..<length acc]
               (allocate (sub_u32 (length V) (length acc)) (length V))))"
  using assms by (simp add: downsample_arrays_def Let_def)

lemma length_V_p_downsample:
  assumes "matching (sort_entries P det (make_entries adj N A (length V)))
             (replicate (length V) False) [] = (fl, acc)"
  shows "length (V_p (downsample_arrays P adj V N A det)) = sub_u32 (length V) (length acc)"
  unfolding downsample_arrays_unfold [OF assms]
  by (simp add: copy_V_p collapse_lengths allocate_def)

lemma nCollapsed_le:
  assumes "platform_ok P" and "ids_in_range (length V) adj"
    and "matching (sort_entries P det (make_entries adj N A (length V)))
             (replicate (length V) False) [] = (fl, acc)"
  shows "length acc \<le> length V"
proof -
  have "\<forall>e\<in>set (sort_entries P det (make_entries adj N A (length V))).
          ent_i e < length (replicate (length V) False) \<and>
          ent_j e < length (replicate (length V) False)"
    using entries_in_range [OF assms(1,2)] by simp
  from matching_count [OF this assms(3)]
  have "length acc \<le> card (flagged fl)" by simp
  also have "\<dots> \<le> length fl" by (rule card_flagged_le)
  also have "length fl = length V" using matching_length [OF assms(3)] by simp
  finally show ?thesis .
qed

lemma first_entry_accepted:
  assumes "platform_ok P" and "ids_in_range (length V) adj"
    and "1 \<le> nLinks adj (length V)"
    and "matching (sort_entries P det (make_entries adj N A (length V)))
             (replicate (length V) False) [] = (fl, acc)"
  shows "acc \<noteq> [] \<and> hd acc = hd (sort_entries P det (make_entries adj N A (length V)))"
proof -
  let ?es = "sort_entries P det (make_entries adj N A (length V))"
  have "length ?es = nLinks adj (length V)"
    using assms(1,2) by (simp add: length_sort_entries length_make_entries)
  then obtain e es where es: "?es = e # es" using assms(3) by (cases ?es) auto
  have "ent_i e < length V \<and> ent_j e < length V"
    using entries_in_range [OF assms(1,2), of det N A] es by simp
  then have "matching ?es (replicate (length V) False) [] =
      matching es ((replicate (length V) False)[ent_i e := True, ent_j e := True]) ([] @ [e])"
    unfolding es by simp
  then obtain xs where "acc = ([] @ [e]) @ xs"
    using matching_extends assms(4) by metis
  then show ?thesis using es by simp
qed

lemma no_links_no_pairs:
  assumes "platform_ok P" and "ids_in_range (length V) adj"
    and "nLinks adj (length V) = 0"
  shows "matching (sort_entries P det (make_entries adj N A (length V)))
             (replicate (length V) False) [] = (replicate (length V) False, [])"
proof -
  have "length (sort_entries P det (make_entries adj N A (length V))) = 0"
    using assms by (simp add: length_sort_entries length_make_entries)
  then show ?thesis by simp
qed



subsection \<open>The order of the entries\<close>




text \<open>With positive areas every score is finite.\<close>

lemma positive_areas_no_nan:
  assumes "ids_in_range n adj" and "\<forall>i<n. 0 < A ! i"
  shows "NaN \<notin> ent_order ` set (make_entries adj N A n)"
proof
  assume "NaN \<in> ent_order ` set (make_entries adj N A n)"
  then obtain e where e: "e \<in> set (make_entries adj N A n)" "ent_order e = NaN" by auto
  then have "e \<in> set (concat (map (\<lambda>i. map (\<lambda>link. (i, link_id link, score N A i (link_id link)))
      (adj ! i)) [0..<n]))"
    unfolding make_entries_def by (auto dest: in_set_takeD)
  then obtain i link where i: "i < n" "link \<in> set (adj ! i)"
    and "e = (i, link_id link, score N A i (link_id link))" by auto
  then have s: "score N A i (link_id link) = NaN" using e(2) by (simp add: ent_order_def)
  have "link_id link < n" using assms(1) i by (auto simp: ids_in_range_def)
  then have "0 < A ! i" "0 < A ! link_id link" using assms(2) i by simp_all
  then show False
    using s by (auto simp: score_def float_div_def float_mul_def Let_def split: if_splits)
qed

text \<open>
  C2 (as amended).  One downsampling step never increases the vertex count; it strictly
  decreases it whenever the fine level has at least one adjacency link; and a level
  without links keeps all its vertices, however many it has.
\<close>

theorem downsample_vertex_count:
  assumes "platform_ok P" and "ids_in_range (length V) adj" and "length V < 2 ^ 32"
  shows "length (V_p (snd (downsample_graph P adj V N A deterministic))) \<le> length V \<and>
         (1 \<le> nLinks adj (length V) \<longrightarrow>
            length (V_p (snd (downsample_graph P adj V N A deterministic))) < length V) \<and>
         (nLinks adj (length V) = 0 \<longrightarrow>
            length (V_p (snd (downsample_graph P adj V N A deterministic))) = length V)"
proof -
  obtain fl acc where m: "matching (sort_entries P deterministic (make_entries adj N A (length V)))
             (replicate (length V) False) [] = (fl, acc)"
    by (cases "matching (sort_entries P deterministic (make_entries adj N A (length V)))
             (replicate (length V) False) []") auto
  have le: "length acc \<le> length V" using nCollapsed_le [OF assms(1,2) m] .
  have n': "length (V_p (snd (downsample_graph P adj V N A deterministic)))
      = length V - length acc"
    using length_V_p_downsample [OF m] sub_u32_eq [OF le assms(3)]
    by (simp add: downsample_graph_def Let_def)
  have pos: "acc \<noteq> []" if "1 \<le> nLinks adj (length V)"
    using first_entry_accepted [OF assms(1,2) that m] by simp
  have zero: "acc = []" if "nLinks adj (length V) = 0"
    using no_links_no_pairs [OF assms(1,2) that, of deterministic N A] m by simp
  show ?thesis
  proof (intro conjI impI)
    show "length (V_p (snd (downsample_graph P adj V N A deterministic))) \<le> length V"
      using n' by simp
    show "length (V_p (snd (downsample_graph P adj V N A deterministic))) < length V"
      if "1 \<le> nLinks adj (length V)"
      using pos [OF that] n' le by (cases acc) auto
    show "length (V_p (snd (downsample_graph P adj V N A deterministic))) = length V"
      if "nLinks adj (length V) = 0"
      using zero [OF that] n' by simp
  qed
qed

lemma test_platform_ok: "platform_ok test_platform"
  by (simp add: platform_ok_def test_platform_def)

lemma tri_in_range: "ids_in_range (length tri_V) tri_adj"
  by (auto simp: ids_in_range_def tri_V_def tri_adj_def less_Suc_eq numeral_3_eq_3)

lemma pair_in_range: "ids_in_range (length pair_V) pair_adj"
  by (auto simp: ids_in_range_def pair_V_def pair_adj_def less_Suc_eq numeral_2_eq_2)

theorem downsample_vertex_count_witness:
  "platform_ok test_platform \<and> ids_in_range (length tri_V) tri_adj \<and>
   ids_in_range (length pair_V) pair_adj \<and>
   length tri_V < 2 ^ 32 \<and> 1 \<le> nLinks tri_adj (length tri_V) \<and> length tri_V = 3 \<and>
   length (V_p (snd (downsample_graph test_platform tri_adj tri_V tri_N tri_A True))) < 3 \<and>
   length pair_V < 2 ^ 32 \<and> nLinks pair_adj (length pair_V) = 0 \<and> length pair_V = 2 \<and>
   length (V_p (snd (downsample_graph test_platform pair_adj pair_V pair_N pair_A True))) = 2"
proof -
  have n: "length tri_V < 2 ^ 32" "length tri_V = 3" by (simp_all add: tri_V_def)
  have p: "length pair_V < 2 ^ 32" "length pair_V = 2" by (simp_all add: pair_V_def)
  have l: "1 \<le> nLinks tri_adj (length tri_V)" by (simp add: nLinks_def tri_adj_def tri_V_def)
  have z: "nLinks pair_adj (length pair_V) = 0" by (simp add: nLinks_def pair_adj_def pair_V_def)
  have t: "length (V_p (snd (downsample_graph test_platform tri_adj tri_V tri_N tri_A True))) < 3"
    using downsample_vertex_count [OF test_platform_ok tri_in_range n(1), of tri_N tri_A True]
      l n(2) by simp
  have u: "length (V_p (snd (downsample_graph test_platform pair_adj pair_V pair_N pair_A True))) = 2"
    using downsample_vertex_count [OF test_platform_ok pair_in_range p(1), of pair_N pair_A True]
      z p(2) by simp
  show ?thesis using test_platform_ok tri_in_range pair_in_range n p l z t u by simp
qed

text \<open>
  C2 as stated fails on the disconnected pair: two vertices, more than one, and the
  coarse level has two vertices again.
\<close>

theorem downsample_vertex_count_counterexample:
  "1 < length pair_V \<and>
   \<not> length (V_p (snd (downsample_graph test_platform pair_adj pair_V pair_N pair_A True)))
       < length pair_V"
  by (simp add: downsample_graph_def downsample_arrays_def make_entries_def sort_entries_def
      allocate_def copy_uncollapsed_def sub_u32_def vertex_order_def Let_def
      pair_adj_def pair_V_def pair_N_def pair_A_def upt_conv_Cons)


lemma tri_entries:
  "make_entries tri_adj tri_N tri_A (length tri_V) =
     [(0, 1, Finite 1), (0, 2, Finite 1), (1, 0, Finite 1), (1, 2, Finite 1),
      (2, 0, Finite 1), (2, 1, Finite 1)]"
  by (simp add: make_entries_def nLinks_def score_def float_div_def float_mul_def Let_def
      tri_adj_def tri_N_def tri_A_def tri_V_def upt_conv_Cons)


subsection \<open>The shape of the coarse arrays\<close>

lemma sum_list_endpoints:
  fixes f :: "nat \<Rightarrow> real"
  shows "sum_list (map f (endpoints es)) = (\<Sum>e\<leftarrow>es. f (ent_i e) + f (ent_j e))"
  by (induction es) (simp_all add: endpoints_def)

lemma map_nth_upt: "map (\<lambda>i. g (xs ! i)) [0..<length xs] = map g xs"
  by (rule nth_equalityI) simp_all

lemma coarse_array:
  assumes "k + length (unmatched fl os) = length xs"
  shows "fill f fl os k (fold (\<lambda>i xs. xs[i := g i]) [0..<k] xs)
         = map g [0..<k] @ map f (unmatched fl os)"
proof -
  have k: "k \<le> length xs" using assms by simp
  let ?ys = "map g [0..<k] @ drop k xs"
  have "fill f fl os k ?ys =
        take k ?ys @ map f (unmatched fl os) @ drop (k + length (unmatched fl os)) ?ys"
    using assms by (intro fill_eq) simp
  then show ?thesis using assms k by (simp add: fold_update_upt)
qed

text \<open>
  The facts about one call that the theorems below share: the accepted pairs are a
  matching of the fine vertices, and the vertices left over are exactly the unflagged
  ones.
\<close>

lemma matching_facts:
  assumes "platform_ok P" and "ids_in_range (length V) adj" and "no_self_loops (length V) adj"
    and m: "matching (sort_entries P det (make_entries adj N A (length V)))
             (replicate (length V) False) [] = (fl, acc)"
  shows "distinct (endpoints acc)" and "set (endpoints acc) = flagged fl"
    and "length fl = length V"
    and "set (unmatched fl (vertex_order P det (length V))) = {..<length V} - flagged fl"
    and "distinct (unmatched fl (vertex_order P det (length V)))"
    and "2 * length acc + length (unmatched fl (vertex_order P det (length V))) = length V"
    and "\<forall>e\<in>set acc. ent_i e < length V \<and> ent_j e < length V"
proof -
  let ?n = "length V"
  let ?es = "sort_entries P det (make_entries adj N A ?n)"
  let ?us = "unmatched fl (vertex_order P det ?n)"
  have es: "\<forall>e\<in>set ?es. ent_i e < length (replicate ?n False) \<and>
      ent_j e < length (replicate ?n False) \<and> ent_i e \<noteq> ent_j e"
    using entries_in_range [OF assms(1,2)] entries_no_loop [OF assms(1,3)] by simp
  have "distinct (endpoints []) " "set (endpoints []) = flagged (replicate ?n False)"
    by simp_all
  from matching_endpoints [OF es this m]
  show d: "distinct (endpoints acc)" and s: "set (endpoints acc) = flagged fl" by simp_all
  show fl: "length fl = ?n" using matching_length [OF m] by simp
  show us: "set ?us = {..<?n} - flagged fl"
    using assms(1) fl by (auto simp: unmatched_def set_vertex_order flagged_def)
  show du: "distinct ?us"
    using assms(1) by (simp add: unmatched_def distinct_vertex_order)
  have sub: "flagged fl \<subseteq> {..<?n}" using flagged_subset [of fl] fl by simp
  have "card (flagged fl) = 2 * length acc"
    using distinct_card [OF d] s by simp
  moreover have "length ?us = card ({..<?n} - flagged fl)"
    using distinct_card [OF du] us by simp
  moreover have "card ({..<?n} - flagged fl) = ?n - card (flagged fl)"
    using sub by (simp add: card_Diff_subset)
  moreover have "card (flagged fl) \<le> ?n" using card_flagged_le [of fl] fl by simp
  ultimately show "2 * length acc + length ?us = ?n" by simp
  obtain xs where "acc = [] @ xs" "set xs \<subseteq> set ?es"
    using matching_extends [OF m] by blast
  then show "\<forall>e\<in>set acc. ent_i e < ?n \<and> ent_j e < ?n"
    using entries_in_range [OF assms(1,2), of det N A] by auto
qed

lemma downsample_arrays_shape:
  assumes "platform_ok P" and "ids_in_range (length V) adj" and "no_self_loops (length V) adj"
    and "length V < 2 ^ 32"
    and m: "matching (sort_entries P det (make_entries adj N A (length V)))
             (replicate (length V) False) [] = (fl, acc)"
    and c: "c = downsample_arrays P adj V N A det"
    and us: "us = unmatched fl (vertex_order P det (length V))"
  shows "A_p c = map (\<lambda>e. A ! ent_i e + A ! ent_j e) acc @ map (\<lambda>i. A ! i) us"
    and "to_upper c = map (\<lambda>e. (ent_i e, ent_j e)) acc @ map (\<lambda>i. (i, INVALID)) us"
    and "length (V_p c) = length V - length acc"
    and "length (N_p c) = length V - length acc"
    and "length (to_lower c) = length V"
    and "\<forall>v<length V. to_lower c ! v < length V - length acc"
proof -
  let ?n = "length V"
  let ?k = "length acc"
  let ?os = "vertex_order P det ?n"
  note mf = matching_facts [OF assms(1,2,3) m]
  have cnt: "2 * ?k + length us = ?n" using mf(6) us by simp
  then have le: "?k \<le> ?n" by simp
  have vc: "sub_u32 ?n ?k = ?n - ?k" using sub_u32_eq [OF le assms(4)] .
  let ?c1 = "fold (collapse_pair (RCPOVERFLOW P) V N A acc) [0..<?k] (allocate (?n - ?k) ?n)"
  have c': "c = snd (fold (copy_uncollapsed V N A fl) ?os (?k, ?c1))"
    using downsample_arrays_unfold [OF m] c vc by simp
  have len: "?k + length (unmatched fl ?os) = ?n - ?k" using cnt us by simp
  have "A_p c = map (\<lambda>i. A ! ent_i (acc ! i) + A ! ent_j (acc ! i)) [0..<?k]
      @ map (\<lambda>i. A ! i) (unmatched fl ?os)"
    unfolding c' copy_A_p collapse_A_p
    by (rule coarse_array) (simp add: allocate_def len)
  then show "A_p c = map (\<lambda>e. A ! ent_i e + A ! ent_j e) acc @ map (\<lambda>i. A ! i) us"
    using map_nth_upt [of "\<lambda>e. A ! ent_i e + A ! ent_j e" acc] us by simp
  have "to_upper c = map (\<lambda>i. (ent_i (acc ! i), ent_j (acc ! i))) [0..<?k]
      @ map (\<lambda>i. (i, INVALID)) (unmatched fl ?os)"
    unfolding c' copy_to_upper collapse_to_upper
    by (rule coarse_array) (simp add: allocate_def len)
  then show "to_upper c = map (\<lambda>e. (ent_i e, ent_j e)) acc @ map (\<lambda>i. (i, INVALID)) us"
    using map_nth_upt [of "\<lambda>e. (ent_i e, ent_j e)" acc] us by simp
  show "length (V_p c) = ?n - ?k" "length (N_p c) = ?n - ?k"
    unfolding c' by (simp_all add: copy_V_p copy_N_p collapse_lengths allocate_def)
  have tl: "length (to_lower ?c1) = ?n"
    by (simp add: collapse_to_lower allocate_def)
  show "length (to_lower c) = ?n" unfolding c' using tl by simp
  show "\<forall>v<?n. to_lower c ! v < ?n - ?k"
  proof (intro allI impI)
    fix v assume v: "v < ?n"
    show "to_lower c ! v < ?n - ?k"
    proof (cases "v \<in> flagged fl")
      case True
      then have e: "v \<in> set (endpoints (take ?k acc))" using mf(2) by simp
      have "v \<notin> set (unmatched fl ?os)" using True mf(4) by simp
      then have "to_lower c ! v = to_lower ?c1 ! v"
        unfolding c' by (rule copy_to_lower_other)
      also have "\<dots> < ?k"
        unfolding collapse_to_lower
        using e mf(7) by (intro to_lower_pairs_bound) (simp_all add: allocate_def)
      finally show ?thesis using cnt by simp
    next
      case False
      then have "v \<in> set (unmatched fl ?os)" using v mf(4) by simp
      then have "to_lower c ! v < ?k + length (unmatched fl ?os)"
        unfolding c' using v tl by (intro copy_to_lower_bound) simp_all
      then show ?thesis using len by simp
    qed
  qed
qed

text \<open>One step preserves the total area.\<close>

lemma downsample_area:
  assumes "platform_ok P" and "ids_in_range (length V) adj" and "no_self_loops (length V) adj"
    and "length V < 2 ^ 32" and "length A = length V"
  shows "sum_list (A_p (downsample_arrays P adj V N A det)) = sum_list A"
proof -
  let ?n = "length V"
  obtain fl acc where m: "matching (sort_entries P det (make_entries adj N A ?n))
             (replicate ?n False) [] = (fl, acc)"
    by (cases "matching (sort_entries P det (make_entries adj N A ?n)) (replicate ?n False) []")
      auto
  let ?us = "unmatched fl (vertex_order P det ?n)"
  note mf = matching_facts [OF assms(1,2,3) m]
  note sh = downsample_arrays_shape [OF assms(1,2,3,4) m refl refl]
  have "sum_list (A_p (downsample_arrays P adj V N A det))
      = sum_list (map (\<lambda>v. A ! v) (endpoints acc)) + sum_list (map (\<lambda>v. A ! v) ?us)"
    by (simp add: sh(1) sum_list_endpoints)
  also have "sum_list (map (\<lambda>v. A ! v) (endpoints acc)) = (\<Sum>v\<in>flagged fl. A ! v)"
    using sum_list_distinct_conv_sum_set [OF mf(1), of "\<lambda>v. A ! v"] mf(2) by simp
  also have "sum_list (map (\<lambda>v. A ! v) ?us) = (\<Sum>v\<in>{..<?n} - flagged fl. A ! v)"
    using sum_list_distinct_conv_sum_set [OF mf(5), of "\<lambda>v. A ! v"] mf(4) by simp
  also have "(\<Sum>v\<in>flagged fl. A ! v) + (\<Sum>v\<in>{..<?n} - flagged fl. A ! v)
      = (\<Sum>v\<in>{..<?n}. A ! v)"
  proof -
    have "flagged fl \<subseteq> {..<?n}" using flagged_subset [of fl] mf(3) by simp
    then show ?thesis
      using sum.subset_diff [of "flagged fl" "{..<?n}" "\<lambda>v. A ! v"] by simp
  qed
  also have "\<dots> = sum_list A"
    using assms(5) by (simp add: sum_list_sum_nth lessThan_atLeast0)
  finally show ?thesis .
qed

subsection \<open>The coarse adjacency\<close>

lemma wsum_simps [simp]:
  "wsum k [] = 0"
  "wsum k (l # ls) = (if link_id l = k then link_weight l else 0) + wsum k ls"
  "wsum k (xs @ ys) = wsum k xs + wsum k ys"
  by (simp_all add: wsum_def)

lemma wsum_mset: "mset xs = mset ys \<Longrightarrow> wsum k xs = wsum k ys"
proof -
  assume "mset xs = mset ys"
  then have "mset (map link_weight (filter (\<lambda>l. link_id l = k) xs)) =
             mset (map link_weight (filter (\<lambda>l. link_id l = k) ys))"
    by simp
  then show ?thesis unfolding wsum_def by (metis sum_mset_sum_list)
qed

lemma wsum_absent: "k \<notin> link_id ` set ls \<Longrightarrow> wsum k ls = 0"
  by (induction ls) auto

lemma wsum_distinct:
  "distinct (map link_id ls) \<Longrightarrow> l \<in> set ls \<Longrightarrow> wsum (link_id l) ls = link_weight l"
  by (induction ls) (auto simp: wsum_absent)

text \<open>
  The second pass on a buffer sorted by id.  \<open>dest\<close> is strictly sorted and ends with the
  id \<open>id0\<close>, which no later id undercuts; or \<open>dest\<close> is empty and \<open>id0\<close> is no id of the
  buffer.
\<close>

lemma merge_links_sorted:
  assumes "sorted (map link_id xs)"
    and "sorted_wrt (<) (map link_id dest)" and "i \<notin> link_id ` set dest"
    and "dest = [] \<longrightarrow> id0 \<notin> link_id ` set xs"
    and "dest \<noteq> [] \<longrightarrow> id0 = link_id (last dest) \<and> (\<forall>x\<in>set xs. id0 \<le> link_id x)"
  shows "sorted_wrt (<) (map link_id (merge_links i xs dest id0)) \<and>
         link_id ` set (merge_links i xs dest id0) = link_id ` set dest \<union> (link_id ` set xs - {i}) \<and>
         (\<forall>k. wsum k (merge_links i xs dest id0) = wsum k dest + (if k = i then 0 else wsum k xs))"
  using assms
proof (induction xs arbitrary: dest id0)
  case Nil
  then show ?case by simp
next
  case (Cons l xs)
  have sx: "sorted (map link_id xs)" and lx: "\<forall>x\<in>set xs. link_id l \<le> link_id x"
    using Cons.prems(1) by simp_all
  show ?case
  proof (cases "link_id l = i")
    case True
    have "sorted_wrt (<) (map link_id (merge_links i xs dest id0)) \<and>
         link_id ` set (merge_links i xs dest id0) = link_id ` set dest \<union> (link_id ` set xs - {i}) \<and>
         (\<forall>k. wsum k (merge_links i xs dest id0) = wsum k dest + (if k = i then 0 else wsum k xs))"
      using Cons.prems by (intro Cons.IH [OF sx]) auto
    then show ?thesis using True by auto
  next
    case False
    show ?thesis
    proof (cases "id0 = link_id l")
      case new: False
      let ?d = "dest @ [l]"
      have d1: "sorted_wrt (<) (map link_id ?d)"
      proof (cases "dest = []")
        case True
        then show ?thesis by simp
      next
        case ne: False
        then have last: "id0 = link_id (last dest)" "id0 \<le> link_id l"
          using Cons.prems(5) by simp_all
        have "\<forall>x\<in>set dest. link_id x \<le> link_id (last dest)"
        proof
          fix x assume x: "x \<in> set dest"
          obtain bs b where b: "dest = bs @ [b]" using ne by (cases dest rule: rev_cases) auto
          then have "sorted_wrt (<) (map link_id bs @ [link_id b])" using Cons.prems(2) by simp
          then have "\<forall>y\<in>set bs. link_id y < link_id b"
            by (simp add: sorted_wrt_append)
          then show "link_id x \<le> link_id (last dest)" using x b by auto
        qed
        then have "\<forall>x\<in>set dest. link_id x < link_id l" using last new by fastforce
        then show ?thesis using Cons.prems(2) by (simp add: sorted_wrt_append)
      qed
      have d2: "i \<notin> link_id ` set ?d" using Cons.prems(3) False by auto
      have "sorted_wrt (<) (map link_id (merge_links i xs ?d (link_id l))) \<and>
         link_id ` set (merge_links i xs ?d (link_id l))
           = link_id ` set ?d \<union> (link_id ` set xs - {i}) \<and>
         (\<forall>k. wsum k (merge_links i xs ?d (link_id l))
           = wsum k ?d + (if k = i then 0 else wsum k xs))"
        using lx by (intro Cons.IH [OF sx d1 d2]) simp_all
      then show ?thesis using False new by auto
    next
      case same: True
      have ne: "dest \<noteq> []" using Cons.prems(4) same by auto
      then obtain bs b where b: "dest = bs @ [b]" by (cases dest rule: rev_cases) auto
      have idb: "link_id b = link_id l" using Cons.prems(5) ne same b by simp
      let ?d = "bs @ [Link (link_id b) (link_weight b + link_weight l)]"
      have d1: "sorted_wrt (<) (map link_id ?d)" using Cons.prems(2) b by simp
      have d2: "i \<notin> link_id ` set ?d" using Cons.prems(3) b by auto
      have "sorted_wrt (<) (map link_id (merge_links i xs ?d id0)) \<and>
         link_id ` set (merge_links i xs ?d id0)
           = link_id ` set ?d \<union> (link_id ` set xs - {i}) \<and>
         (\<forall>k. wsum k (merge_links i xs ?d id0)
           = wsum k ?d + (if k = i then 0 else wsum k xs))"
        using lx same idb by (intro Cons.IH [OF sx d1 d2]) simp_all
      moreover have "merge_links i (l # xs) dest id0 = merge_links i xs ?d id0"
        using False same ne b by simp
      ultimately show ?thesis using False same b idb by auto
    qed
  qed
qed

text \<open>The first pass counts what the second pass writes.\<close>

lemma count_links_eq:
  "count_links i xs id0 size0 + length dest = size0 + length (merge_links i xs dest id0)"
  if "dest = [] \<longrightarrow> id0 \<notin> link_id ` set xs"
  using that
proof (induction xs arbitrary: dest id0 size0)
  case Nil
  then show ?case by simp
next
  case (Cons l xs)
  show ?case
  proof (cases "link_id l \<noteq> i \<and> id0 \<noteq> link_id l")
    case True
    have "count_links i xs (link_id l) (size0 + 1) + length (dest @ [l])
        = size0 + 1 + length (merge_links i xs (dest @ [l]) (link_id l))"
      by (intro Cons.IH) simp
    then show ?thesis using True by simp
  next
    case False
    show ?thesis
    proof (cases "link_id l = i")
      case True
      have "count_links i xs id0 size0 + length dest
          = size0 + length (merge_links i xs dest id0)"
        using Cons.prems by (intro Cons.IH) auto
      then show ?thesis using True by simp
    next
      case neq: False
      then have same: "id0 = link_id l" using False by simp
      then have ne: "dest \<noteq> []" using Cons.prems by auto
      let ?d = "butlast dest @ [Link (link_id (last dest)) (link_weight (last dest) + link_weight l)]"
      have "count_links i xs id0 size0 + length ?d = size0 + length (merge_links i xs ?d id0)"
        by (intro Cons.IH) simp
      moreover have "length ?d = length dest" using ne by simp
      ultimately show ?thesis using neq same ne by simp
    qed
  qed
qed

lemma sorted_sort_links: "sorted (map link_id (sort_links xs))"
  by (simp add: sort_links_def)

lemma mset_sort_links: "mset (sort_links xs) = mset xs"
  by (simp add: sort_links_def)

lemma set_sort_links: "set (sort_links xs) = set xs"
  by (simp add: sort_links_def)

lemma merge_sorted_scratch:
  assumes "INVALID \<notin> link_id ` set scratch"
  shows "sorted_wrt (<) (map link_id (merge_links i (sort_links scratch) [] INVALID))"
    and "link_id ` set (merge_links i (sort_links scratch) [] INVALID)
           = link_id ` set scratch - {i}"
    and "wsum k (merge_links i (sort_links scratch) [] INVALID)
           = (if k = i then 0 else wsum k scratch)"
proof -
  have "sorted_wrt (<) (map link_id (merge_links i (sort_links scratch) [] INVALID)) \<and>
      link_id ` set (merge_links i (sort_links scratch) [] INVALID)
        = link_id ` set [] \<union> (link_id ` set (sort_links scratch) - {i}) \<and>
      (\<forall>k. wsum k (merge_links i (sort_links scratch) [] INVALID)
        = wsum k [] + (if k = i then 0 else wsum k (sort_links scratch)))"
    using assms by (intro merge_links_sorted sorted_sort_links) (simp_all add: set_sort_links)
  then show "sorted_wrt (<) (map link_id (merge_links i (sort_links scratch) [] INVALID))"
    and "link_id ` set (merge_links i (sort_links scratch) [] INVALID)
           = link_id ` set scratch - {i}"
    and "wsum k (merge_links i (sort_links scratch) [] INVALID)
           = (if k = i then 0 else wsum k scratch)"
    using wsum_mset [OF mset_sort_links, of k scratch] by (simp_all add: set_sort_links)
qed

lemma gather_eq:
  "gather adj toUpper toLower i =
   map (\<lambda>link. Link (toLower ! link_id link) (link_weight link))
     (concat (map (\<lambda>p. adj ! p)
        (filter (\<lambda>p. p \<noteq> INVALID) [fst (toUpper ! i), snd (toUpper ! i)])))"
  by (simp add: gather_def map_concat o_def)

lemma wsum_projected:
  "wsum k (map (\<lambda>link. Link (f (link_id link)) (link_weight link)) links)
   = (\<Sum>l\<leftarrow>filter (\<lambda>l. f (link_id l) = k) links. link_weight l)"
  by (induction links) simp_all

text \<open>The parents of a coarse vertex are fine vertices.\<close>

lemma parents_in_range:
  assumes "platform_ok P" and "ids_in_range (length V) adj" and "no_self_loops (length V) adj"
    and "length V < 2 ^ 32"
    and c: "c = downsample_arrays P adj V N A det"
    and i: "i < length (V_p c)"
  shows "fst (to_upper c ! i) < length V"
    and "snd (to_upper c ! i) \<noteq> INVALID \<longrightarrow> snd (to_upper c ! i) < length V"
proof -
  let ?n = "length V"
  obtain fl acc where m: "matching (sort_entries P det (make_entries adj N A ?n))
             (replicate ?n False) [] = (fl, acc)"
    by (cases "matching (sort_entries P det (make_entries adj N A ?n)) (replicate ?n False) []")
      auto
  let ?us = "unmatched fl (vertex_order P det ?n)"
  note mf = matching_facts [OF assms(1,2,3) m]
  note sh = downsample_arrays_shape [OF assms(1,2,3,4) m c refl]
  have i': "i < length acc + length ?us" using i sh(3) mf(6) by simp
  have "fst (to_upper c ! i) < ?n \<and>
      (snd (to_upper c ! i) \<noteq> INVALID \<longrightarrow> snd (to_upper c ! i) < ?n)"
  proof (cases "i < length acc")
    case True
    then have "to_upper c ! i = (ent_i (acc ! i), ent_j (acc ! i))"
      by (simp add: sh(2) nth_append)
    moreover have "acc ! i \<in> set acc" using True by simp
    ultimately show ?thesis using mf(7) by simp
  next
    case False
    then have j: "i - length acc < length ?us" using i' by simp
    then have "to_upper c ! i = (?us ! (i - length acc), INVALID)"
      using False by (simp add: sh(2) nth_append)
    moreover have "?us ! (i - length acc) \<in> set ?us" using j by simp
    ultimately show ?thesis using mf(4) by auto
  qed
  then show "fst (to_upper c ! i) < ?n"
    and "snd (to_upper c ! i) \<noteq> INVALID \<longrightarrow> snd (to_upper c ! i) < ?n"
    by simp_all
qed

lemma gather_ids:
  assumes "platform_ok P" and "ids_in_range (length V) adj" and "no_self_loops (length V) adj"
    and "length V < 2 ^ 32"
    and c: "c = downsample_arrays P adj V N A det"
    and i: "i < length (V_p c)"
  shows "\<forall>l\<in>set (gather adj (to_upper c) (to_lower c) i). link_id l < length (V_p c)"
proof
  fix l assume "l \<in> set (gather adj (to_upper c) (to_lower c) i)"
  then obtain p l0 where p: "p \<in> {fst (to_upper c ! i), snd (to_upper c ! i)}" "p \<noteq> INVALID"
    and l0: "l0 \<in> set (adj ! p)" and l: "l = Link (to_lower c ! link_id l0) (link_weight l0)"
    by (auto simp: gather_def split: if_splits)
  have "p < length V"
    using parents_in_range [OF assms(1,2,3,4) c i] p by auto
  then have "link_id l0 < length V" using assms(2) l0 by (auto simp: ids_in_range_def)
  obtain fl acc where m: "matching (sort_entries P det (make_entries adj N A (length V)))
             (replicate (length V) False) [] = (fl, acc)"
    by (cases "matching (sort_entries P det (make_entries adj N A (length V)))
        (replicate (length V) False) []") auto
  note sh = downsample_arrays_shape [OF assms(1,2,3,4) m c refl]
  show "link_id l < length (V_p c)"
    using sh(6) sh(3) \<open>link_id l0 < length V\<close> l by simp
qed

lemma coarse_row_facts:
  assumes "platform_ok P" and "ids_in_range (length V) adj" and "no_self_loops (length V) adj"
    and "length V < 2 ^ 32"
    and c: "c = downsample_arrays P adj V N A det"
    and i: "i < length (V_p c)"
  shows "sorted_wrt (<) (map link_id (coarse_row adj c i))"
    and "link_id ` set (coarse_row adj c i)
           = link_id ` set (gather adj (to_upper c) (to_lower c) i) - {i}"
    and "wsum k (coarse_row adj c i)
           = (if k = i then 0 else wsum k (gather adj (to_upper c) (to_lower c) i))"
    and "neighborhoodSize adj c i = length (coarse_row adj c i)"
    and "\<forall>l\<in>set (coarse_row adj c i). link_id l < length (V_p c) \<and> link_id l \<noteq> i"
proof -
  let ?g = "gather adj (to_upper c) (to_lower c) i"
  obtain fl acc where m: "matching (sort_entries P det (make_entries adj N A (length V)))
             (replicate (length V) False) [] = (fl, acc)"
    by (cases "matching (sort_entries P det (make_entries adj N A (length V)))
        (replicate (length V) False) []") auto
  note sh = downsample_arrays_shape [OF assms(1,2,3,4) m c refl]
  have ids: "\<forall>l\<in>set ?g. link_id l < length (V_p c)"
    using gather_ids [OF assms] .
  have le: "length (V_p c) \<le> INVALID" using sh(3) assms(4) by (simp add: INVALID_def)
  have inv: "INVALID \<notin> link_id ` set ?g"
  proof
    assume "INVALID \<in> link_id ` set ?g"
    then obtain l where "l \<in> set ?g" "link_id l = INVALID" by auto
    then show False using ids le by auto
  qed
  show "sorted_wrt (<) (map link_id (coarse_row adj c i))"
    unfolding coarse_row_def by (rule merge_sorted_scratch(1) [OF inv])
  show s: "link_id ` set (coarse_row adj c i) = link_id ` set ?g - {i}"
    unfolding coarse_row_def by (rule merge_sorted_scratch(2) [OF inv])
  show "wsum k (coarse_row adj c i) = (if k = i then 0 else wsum k ?g)"
    unfolding coarse_row_def by (rule merge_sorted_scratch(3) [OF inv])
  have inv': "([] :: Link list) = [] \<longrightarrow> INVALID \<notin> link_id ` set (sort_links ?g)"
    using inv by (simp only: set_sort_links simp_thms)
  have "count_links i (sort_links ?g) INVALID 0 + length ([] :: Link list)
      = 0 + length (merge_links i (sort_links ?g) [] INVALID)"
    using inv' by (rule count_links_eq)
  then show "neighborhoodSize adj c i = length (coarse_row adj c i)"
    unfolding neighborhoodSize_def coarse_row_def by simp
  show "\<forall>l\<in>set (coarse_row adj c i). link_id l < length (V_p c) \<and> link_id l \<noteq> i"
  proof
    fix l assume "l \<in> set (coarse_row adj c i)"
    then have "link_id l \<in> link_id ` set ?g - {i}" using s by blast
    then obtain l' where "l' \<in> set ?g" "link_id l = link_id l'" "link_id l \<noteq> i" by auto
    then show "link_id l < length (V_p c) \<and> link_id l \<noteq> i" using ids by simp
  qed
qed

text \<open>
  The coarse level has no more links than the fine one, so the 32-bit counters hold them
  again.
\<close>

lemma length_merge_links:
  "length (merge_links i scratch dest id0) \<le> length dest + length scratch"
proof (induction scratch arbitrary: dest id0)
  case Nil
  then show ?case by simp
next
  case (Cons link scratch)
  have a: "length (merge_links i scratch (dest @ [link]) (link_id link))
      \<le> Suc (length dest + length scratch)"
    using Cons [of "dest @ [link]" "link_id link"] by simp
  have b: "length (merge_links i scratch dest id0) \<le> length dest + length scratch"
    using Cons .
  have c: "length (merge_links i scratch
        (butlast dest @ [Link (link_id (last dest)) (link_weight (last dest) + link_weight link)])
        id0) \<le> length dest + length scratch" if "dest \<noteq> []"
    using Cons [of "butlast dest @
        [Link (link_id (last dest)) (link_weight (last dest) + link_weight link)]" id0] that
    by simp
  show ?case
  proof (cases "link_id link = i")
    case True
    then show ?thesis using b by simp
  next
    case ni: False
    show ?thesis
    proof (cases "id0 = link_id link")
      case False
      then show ?thesis using ni a by simp
    next
      case True
      show ?thesis
      proof (cases "dest = []")
        case True
        then show ?thesis using ni \<open>id0 = link_id link\<close> b by auto
      next
        case False
        then show ?thesis using ni \<open>id0 = link_id link\<close> c by auto
      qed
    qed
  qed
qed

lemma length_coarse_row:
  "length (coarse_row adj c i)
   \<le> length (adj ! fst (to_upper c ! i))
     + (if snd (to_upper c ! i) \<noteq> INVALID then length (adj ! snd (to_upper c ! i)) else 0)"
proof -
  have "length (coarse_row adj c i) \<le> length (gather adj (to_upper c) (to_lower c) i)"
    unfolding coarse_row_def
    using length_merge_links [of i "sort_links (gather adj (to_upper c) (to_lower c) i)" "[]"
        INVALID]
    by (simp add: sort_links_def)
  also have "\<dots> \<le> length (adj ! fst (to_upper c ! i))
     + (if snd (to_upper c ! i) \<noteq> INVALID then length (adj ! snd (to_upper c ! i)) else 0)"
    by (simp add: gather_def)
  finally show ?thesis .
qed

lemma sum_list_endpoints_nat:
  fixes f :: "nat \<Rightarrow> nat"
  shows "sum_list (map f (endpoints es)) = (\<Sum>e\<leftarrow>es. f (ent_i e) + f (ent_j e))"
  by (induction es) (simp_all add: endpoints_def)

lemma coarse_links_le:
  assumes "platform_ok P" and "ids_in_range (length V) adj" and "no_self_loops (length V) adj"
    and "length V < 2 ^ 32"
    and c: "c = downsample_arrays P adj V N A det"
  shows "length (concat (map (coarse_row adj c) [0..<length (V_p c)])) \<le> length (concat adj)"
proof -
  let ?n = "length V"
  let ?f = "\<lambda>v. length (adj ! v)"
  let ?h = "\<lambda>t. ?f (fst t) + (if snd t \<noteq> INVALID then ?f (snd t) else 0)"
  obtain fl acc where m: "matching (sort_entries P det (make_entries adj N A ?n))
             (replicate ?n False) [] = (fl, acc)"
    by (cases "matching (sort_entries P det (make_entries adj N A ?n)) (replicate ?n False) []")
      auto
  let ?us = "unmatched fl (vertex_order P det ?n)"
  note mf = matching_facts [OF assms(1,2,3) m]
  note sh = downsample_arrays_shape [OF assms(1,2,3,4) m c refl]
  have lu: "length (to_upper c) = length (V_p c)"
    using sh(2,3) mf(6) by simp
  have "length (concat (map (coarse_row adj c) [0..<length (V_p c)]))
      = (\<Sum>i\<leftarrow>[0..<length (V_p c)]. length (coarse_row adj c i))"
    by (simp add: length_concat comp_def)
  also have "\<dots> \<le> (\<Sum>i\<leftarrow>[0..<length (V_p c)]. ?h (to_upper c ! i))"
    by (rule sum_list_mono) (rule length_coarse_row)
  also have "\<dots> = sum_list (map ?h (to_upper c))"
    using map_nth_upt [of ?h "to_upper c"] lu by simp
  also have "\<dots> = (\<Sum>e\<leftarrow>acc. ?f (ent_i e) + (if ent_j e \<noteq> INVALID then ?f (ent_j e) else 0))
      + sum_list (map ?f ?us)"
    by (simp add: sh(2) comp_def cong: if_cong)
  also have "(\<Sum>e\<leftarrow>acc. ?f (ent_i e) + (if ent_j e \<noteq> INVALID then ?f (ent_j e) else 0))
      = (\<Sum>e\<leftarrow>acc. ?f (ent_i e) + ?f (ent_j e))"
  proof -
    have "ent_j e \<noteq> INVALID" if "e \<in> set acc" for e
      using mf(7) that assms(4) by (auto simp: INVALID_def)
    then have "map (\<lambda>e. ?f (ent_i e) + (if ent_j e \<noteq> INVALID then ?f (ent_j e) else 0)) acc
        = map (\<lambda>e. ?f (ent_i e) + ?f (ent_j e)) acc"
      by (intro map_cong) simp_all
    then show ?thesis by (rule arg_cong)
  qed
  also have "\<dots> = sum_list (map ?f (endpoints acc))"
    by (simp add: sum_list_endpoints_nat)
  also have "\<dots> = (\<Sum>v\<in>flagged fl. ?f v)"
    using sum_list_distinct_conv_sum_set [OF mf(1), of ?f] mf(2) by simp
  also have "sum_list (map ?f ?us) = (\<Sum>v\<in>{..<?n} - flagged fl. ?f v)"
    using sum_list_distinct_conv_sum_set [OF mf(5), of ?f] mf(4) by simp
  also have "(\<Sum>v\<in>flagged fl. ?f v) + (\<Sum>v\<in>{..<?n} - flagged fl. ?f v)
      = (\<Sum>v\<in>{..<?n}. ?f v)"
  proof -
    have "flagged fl \<subseteq> {..<?n}" using flagged_subset [of fl] mf(3) by simp
    then show ?thesis
      using sum.subset_diff [of "flagged fl" "{..<?n}" ?f] by simp
  qed
  also have "\<dots> = sum_list (map length adj)"
  proof -
    have "length adj = ?n" using assms(2) by (simp add: ids_in_range_def)
    then show ?thesis
      using sum_list_sum_nth [of "map length adj"] by (simp add: lessThan_atLeast0)
  qed
  also have "\<dots> = length (concat adj)" by (simp add: length_concat)
  finally show ?thesis .
qed

text \<open>The coarse level is a well-formed input of the next step.\<close>

lemma downsample_well_formed:
  assumes "platform_ok P" and "ids_in_range (length V) adj" and "no_self_loops (length V) adj"
    and "length V < 2 ^ 32" and "length A = length V"
    and r: "downsample_graph P adj V N A det = (adj_p, c)"
  shows "ids_in_range (length (V_p c)) adj_p" and "no_self_loops (length (V_p c)) adj_p"
    and "length (V_p c) \<le> length V" and "length (A_p c) = length (V_p c)"
    and "sum_list (A_p c) = sum_list A"
proof -
  have c: "c = downsample_arrays P adj V N A det"
    and a: "adj_p = map (coarse_row adj c) [0..<length (V_p c)]"
    using r by (auto simp: downsample_graph_def Let_def)
  obtain fl acc where m: "matching (sort_entries P det (make_entries adj N A (length V)))
             (replicate (length V) False) [] = (fl, acc)"
    by (cases "matching (sort_entries P det (make_entries adj N A (length V)))
        (replicate (length V) False) []") auto
  note mf = matching_facts [OF assms(1,2,3) m]
  note sh = downsample_arrays_shape [OF assms(1,2,3,4) m c refl]
  have f5: "link_id l < length (V_p c) \<and> link_id l \<noteq> i"
    if "i < length (V_p c)" "l \<in> set (coarse_row adj c i)" for i l
    using coarse_row_facts(5) [OF assms(1,2,3,4) c that(1)] that(2) by (rule bspec)
  have "length (concat adj_p) \<le> length (concat adj)"
    unfolding a by (rule coarse_links_le [OF assms(1,2,3,4) c])
  moreover have "length (concat adj) < 2 ^ 32" using assms(2) by (simp add: ids_in_range_def)
  ultimately have b: "length (concat adj_p) < 2 ^ 32" by (rule le_less_trans)
  show "ids_in_range (length (V_p c)) adj_p"
    unfolding ids_in_range_def
  proof (intro conjI allI impI ballI)
    show "length adj_p = length (V_p c)" by (simp add: a)
    show "length (concat adj_p) < 2 ^ 32" by (rule b)
    show "link_id l < length (V_p c)" if "i < length (V_p c)" "l \<in> set (adj_p ! i)" for i l
      using f5 [of i l] that by (simp add: a)
  qed
  show "no_self_loops (length (V_p c)) adj_p"
    unfolding no_self_loops_def
  proof (intro conjI allI impI ballI)
    show "link_id l \<noteq> i" if "i < length (V_p c)" "l \<in> set (adj_p ! i)" for i l
      using f5 [of i l] that by (simp add: a)
  qed
  show "length (V_p c) \<le> length V" using sh(3) by simp
  show "length (A_p c) = length (V_p c)" using sh(1,3) mf(6) by simp
  show "sum_list (A_p c) = sum_list A"
    using downsample_area [OF assms(1,2,3,4,5)] c by simp
qed

lemma tri_no_loops: "no_self_loops (length tri_V) tri_adj"
  by (auto simp: no_self_loops_def tri_V_def tri_adj_def less_Suc_eq numeral_3_eq_3)

text \<open>
  C6.  For every coarse vertex \<open>i\<close> that \<^verbatim>\<open>downsample_graph\<close> produces (from an adjacency
  without self-loops whose ids are vertices), the coarse row \<^verbatim>\<open>Adj'[i]\<close> has no entry with
  the id \<open>i\<close> and no id twice (the ids ascend); its ids are the ids of the links of the parents of \<open>i\<close>
  under \<^verbatim>\<open>to_lower\<close>, but for \<open>i\<close> itself; and the weight of each entry is the sum of the
  weights of all the parents' links that \<^verbatim>\<open>to_lower\<close> sends to its id.  The row has the
  length the first pass counted, and the coarse level has no more links than the fine one.
\<close>

theorem coarse_adjacency:
  assumes "platform_ok P" and "ids_in_range (length V) adj" and "no_self_loops (length V) adj"
    and "length V < 2 ^ 32"
    and r: "downsample_graph P adj V N A deterministic = (adj_p, c)"
    and i: "i < length (V_p c)"
    and links: "links = concat (map (\<lambda>p. adj ! p)
        (filter (\<lambda>p. p \<noteq> INVALID) [fst (to_upper c ! i), snd (to_upper c ! i)]))"
  shows "length adj_p = length (V_p c) \<and>
         i \<notin> link_id ` set (adj_p ! i) \<and>
         sorted_wrt (<) (map link_id (adj_p ! i)) \<and>
         distinct (map link_id (adj_p ! i)) \<and>
         link_id ` set (adj_p ! i) = (\<lambda>l. to_lower c ! link_id l) ` set links - {i} \<and>
         (\<forall>e\<in>set (adj_p ! i).
            link_weight e =
            (\<Sum>l\<leftarrow>filter (\<lambda>l. to_lower c ! link_id l = link_id e) links. link_weight l)) \<and>
         length (adj_p ! i) = neighborhoodSize adj c i \<and>
         length (concat adj_p) \<le> length (concat adj)"
proof -
  have c: "c = downsample_arrays P adj V N A deterministic"
    and a: "adj_p = map (coarse_row adj c) [0..<length (V_p c)]"
    using r by (auto simp: downsample_graph_def Let_def)
  have row: "adj_p ! i = coarse_row adj c i" using a i by simp
  note f = coarse_row_facts [OF assms(1,2,3,4) c i]
  let ?g = "gather adj (to_upper c) (to_lower c) i"
  have g: "?g = map (\<lambda>link. Link (to_lower c ! link_id link) (link_weight link)) links"
    unfolding links by (rule gather_eq)
  have d: "distinct (map link_id (coarse_row adj c i))"
    using f(1) strict_sorted_iff by blast
  have ids: "link_id ` set (coarse_row adj c i) = (\<lambda>l. to_lower c ! link_id l) ` set links - {i}"
    unfolding f(2) g by (simp add: image_image)
  have w: "link_weight e =
      (\<Sum>l\<leftarrow>filter (\<lambda>l. to_lower c ! link_id l = link_id e) links. link_weight l)"
    if e: "e \<in> set (coarse_row adj c i)" for e
  proof -
    have "link_id e \<noteq> i" using f(5) e by blast
    then have "wsum (link_id e) (coarse_row adj c i) = wsum (link_id e) ?g"
      using f(3) [of "link_id e"] by simp
    then show ?thesis using wsum_distinct [OF d e] by (simp add: g wsum_projected)
  qed
  have ni: "i \<notin> link_id ` set (coarse_row adj c i)" using f(5) by blast
  have la: "length adj_p = length (V_p c)" using a by simp
  have tot: "length (concat adj_p) \<le> length (concat adj)"
    unfolding a by (rule coarse_links_le [OF assms(1,2,3,4) c])
  show ?thesis
    unfolding row
  proof (intro conjI ballI)
    show "length adj_p = length (V_p c)" by (rule la)
    show "i \<notin> link_id ` set (coarse_row adj c i)" by (rule ni)
    show "sorted_wrt (<) (map link_id (coarse_row adj c i))" by (rule f(1))
    show "distinct (map link_id (coarse_row adj c i))" by (rule d)
    show "link_id ` set (coarse_row adj c i) = (\<lambda>l. to_lower c ! link_id l) ` set links - {i}"
      by (rule ids)
    show "link_weight e =
        (\<Sum>l\<leftarrow>filter (\<lambda>l. to_lower c ! link_id l = link_id e) links. link_weight l)"
      if "e \<in> set (coarse_row adj c i)" for e
      using that by (rule w)
    show "length (coarse_row adj c i) = neighborhoodSize adj c i" using f(4) by simp
    show "length (concat adj_p) \<le> length (concat adj)" by (rule tot)
  qed
qed

lemma replicate_2: "replicate 2 x = [x, x]"
  by (simp add: numeral_2_eq_2)

lemma replicate_3: "replicate 3 x = [x, x, x]"
  by (simp add: numeral_3_eq_3)

lemma tri_sorted:
  "sort_entries test_platform True (make_entries tri_adj tri_N tri_A (length tri_V)) =
     [(0, 1, Finite 1), (0, 2, Finite 1), (1, 0, Finite 1), (1, 2, Finite 1),
      (2, 0, Finite 1), (2, 1, Finite 1)]"
  unfolding tri_entries by (simp add: sort_entries_def ent_order_def)

lemma tri_matching:
  "matching (sort_entries test_platform True (make_entries tri_adj tri_N tri_A (length tri_V)))
     (replicate (length tri_V) False) [] = ([True, True, False], [(0, 1, Finite 1)])"
  unfolding tri_sorted by (simp add: tri_V_def ent_i_def ent_j_def)

lemma tri_arrays:
  "downsample_arrays test_platform tri_adj tri_V tri_N tri_A True =
      \<lparr> V_p = [(1 / 2, 0, 0), (0, 1, 0)], N_p = [(0, 0, 1), (0, 0, 1)], A_p = [2, 1],
        to_upper = [(0, 1), (2, INVALID)], to_lower = [0, 0, 1] \<rparr>"
  unfolding downsample_arrays_unfold [OF tri_matching]
  by (simp add: allocate_def collapse_pair_def copy_uncollapsed_def sub_u32_def
      ent_i_def ent_j_def ent_order_def norm3_def squaredNorm_def Let_def test_platform_def
      tri_V_def tri_N_def tri_A_def upt_conv_Cons UnitX_def Zero3_def
      vertex_order_def INVALID_def replicate_2 replicate_3)

lemma tri_downsampled:
  "downsample_graph test_platform tri_adj tri_V tri_N tri_A True =
     ([[Link 1 2], [Link 0 2]],
      \<lparr> V_p = [(1 / 2, 0, 0), (0, 1, 0)], N_p = [(0, 0, 1), (0, 0, 1)], A_p = [2, 1],
        to_upper = [(0, 1), (2, INVALID)], to_lower = [0, 0, 1] \<rparr>)"
  unfolding downsample_graph_def tri_arrays
  by (simp add: Let_def coarse_row_def gather_def sort_links_def tri_adj_def INVALID_def
      upt_conv_Cons)

theorem coarse_adjacency_witness:
  "platform_ok test_platform \<and> ids_in_range (length tri_V) tri_adj \<and>
   no_self_loops (length tri_V) tri_adj \<and> length tri_V < 2 ^ 32 \<and>
   fst (downsample_graph test_platform tri_adj tri_V tri_N tri_A True)
     = [[Link 1 2], [Link 0 2]] \<and>
   to_upper (snd (downsample_graph test_platform tri_adj tri_V tri_N tri_A True))
     = [(0, 1), (2, INVALID)] \<and>
   to_lower (snd (downsample_graph test_platform tri_adj tri_V tri_N tri_A True)) = [0, 0, 1] \<and>
   neighborhoodSize tri_adj
     (snd (downsample_graph test_platform tri_adj tri_V tri_N tri_A True)) 0 = 1 \<and>
   length (concat (fst (downsample_graph test_platform tri_adj tri_V tri_N tri_A True)))
     \<le> length (concat tri_adj)"
proof -
  let ?r = "downsample_graph test_platform tri_adj tri_V tri_N tri_A True"
  have n: "length tri_V < 2 ^ 32" by (simp add: tri_V_def)
  have i: "0 < length (V_p (snd ?r))" by (simp add: tri_downsampled)
  have r: "?r = (fst ?r, snd ?r)" by simp
  note t = coarse_adjacency [OF test_platform_ok tri_in_range tri_no_loops n r i refl]
  from t have a: "length (fst ?r ! 0) = neighborhoodSize tri_adj (snd ?r) 0"
    and b: "length (concat (fst ?r)) \<le> length (concat tri_adj)"
    by simp_all
  have "neighborhoodSize tri_adj (snd ?r) 0 = 1"
    using a by (simp add: tri_downsampled)
  then show ?thesis
    using test_platform_ok tri_in_range tri_no_loops n b by (simp add: tri_downsampled)
qed

lemma coarse_area_parents:
  assumes "platform_ok P" and "ids_in_range (length V) adj" and "no_self_loops (length V) adj"
    and "length V < 2 ^ 32"
    and c: "c = downsample_arrays P adj V N A det"
    and i: "i < length (V_p c)"
  shows "A_p c ! i = parents_area A (to_upper c) i"
proof -
  let ?n = "length V"
  obtain fl acc where m: "matching (sort_entries P det (make_entries adj N A ?n))
             (replicate ?n False) [] = (fl, acc)"
    by (cases "matching (sort_entries P det (make_entries adj N A ?n)) (replicate ?n False) []")
      auto
  let ?us = "unmatched fl (vertex_order P det ?n)"
  note mf = matching_facts [OF assms(1,2,3) m]
  note sh = downsample_arrays_shape [OF assms(1,2,3,4) m c refl]
  have i': "i < length acc + length ?us" using i sh(3) mf(6) by simp
  show ?thesis
  proof (cases "i < length acc")
    case True
    then have u: "to_upper c ! i = (ent_i (acc ! i), ent_j (acc ! i))"
      and a: "A_p c ! i = A ! ent_i (acc ! i) + A ! ent_j (acc ! i)"
      by (simp_all add: sh(1,2) nth_append)
    have "acc ! i \<in> set acc" using True by simp
    then have "ent_j (acc ! i) < ?n" using mf(7) by blast
    then have "ent_j (acc ! i) \<noteq> INVALID" using assms(4) by (simp add: INVALID_def)
    then show ?thesis by (simp add: parents_area_def u a)
  next
    case False
    then have j: "i - length acc < length ?us" using i' by simp
    then have "to_upper c ! i = (?us ! (i - length acc), INVALID)"
      and "A_p c ! i = A ! (?us ! (i - length acc))"
      using False by (simp_all add: sh(1,2) nth_append)
    then show ?thesis by (simp add: parents_area_def)
  qed
qed

lemma push_level_fields:
  "mAdj (push_level adj_p c ph h) = mAdj h @ [adj_p]"
  "mV (push_level adj_p c ph h) = mV h @ [V_p c]"
  "mA (push_level adj_p c ph h) = mA h @ [A_p c]"
  "mToUpper (push_level adj_p c ph h) = mToUpper h @ [to_upper c]"
  by (simp_all add: push_level_def)

lemma build_inv_push:
  assumes P: "platform_ok P" and inv: "build_inv S i h"
    and r: "downsample_graph P (mAdj h ! i) (mV h ! i) (mN h ! i) (mA h ! i) det = (adj_p, c)"
  shows "build_inv S (i + 1) (push_level adj_p c ph h)"
proof -
  let ?h = "push_level adj_p c ph h"
  have len: "length (mAdj h) = i + 1" "length (mV h) = i + 1" "length (mA h) = i + 1"
      "length (mToUpper h) = i"
    and wf: "ids_in_range (length (mV h ! i)) (mAdj h ! i)"
      "no_self_loops (length (mV h ! i)) (mAdj h ! i)"
      "length (mV h ! i) < 2 ^ 32" "length (mA h ! i) = length (mV h ! i)"
    and area: "\<forall>l\<le>i. sum_list (mA h ! l) = S"
    and par: "\<forall>l<i. \<forall>v<length (mV h ! (l + 1)).
        mA h ! (l + 1) ! v = parents_area (mA h ! l) (mToUpper h ! l) v"
    using inv by (simp_all add: build_inv_def)
  note w = downsample_well_formed [OF P wf r]
  have c: "c = downsample_arrays P (mAdj h ! i) (mV h ! i) (mN h ! i) (mA h ! i) det"
    using r by (auto simp: downsample_graph_def Let_def)
  have new: "mAdj ?h ! (i + 1) = adj_p" "mV ?h ! (i + 1) = V_p c" "mA ?h ! (i + 1) = A_p c"
    using len by (simp_all add: push_level_fields nth_append)
  have up: "mToUpper ?h ! i = to_upper c"
    using len by (simp add: push_level_fields nth_append)
  have old: "mV ?h ! l = mV h ! l" "mA ?h ! l = mA h ! l" if "l \<le> i" for l
    using len that by (simp_all add: push_level_fields nth_append)
  have oldu: "mToUpper ?h ! l = mToUpper h ! l" if "l < i" for l
    using len that by (simp add: push_level_fields nth_append)
  have a: "sum_list (mA ?h ! l) = S" if "l \<le> i + 1" for l
  proof (cases "l \<le> i")
    case True
    then show ?thesis using area old(2) [OF True] by simp
  next
    case False
    then have "l = i + 1" using that by simp
    then show ?thesis using new(3) w(5) area by simp
  qed
  have p: "mA ?h ! (l + 1) ! v = parents_area (mA ?h ! l) (mToUpper ?h ! l) v"
    if "l < i + 1" "v < length (mV ?h ! (l + 1))" for l v
  proof (cases "l < i")
    case True
    then have "l + 1 \<le> i" "l \<le> i" by simp_all
    then show ?thesis
      using par True that(2) old(1) [of "l + 1"] old(2) [of "l + 1"] old(2) [of l] oldu [of l]
      by simp
  next
    case False
    then have l: "l = i" using that(1) by simp
    have v: "v < length (V_p c)" using that(2) new(2) l by simp
    have "A_p c ! v = parents_area (mA h ! i) (to_upper c) v"
      using coarse_area_parents [OF P wf(1,2,3) c v] .
    then show ?thesis using l new(3) up old(2) [of i] by simp
  qed
  show ?thesis
    unfolding build_inv_def
  proof (intro conjI allI impI)
    show "length (mAdj ?h) = i + 1 + 1" "length (mV ?h) = i + 1 + 1"
      "length (mA ?h) = i + 1 + 1" "length (mToUpper ?h) = i + 1"
      using len by (simp_all add: push_level_fields)
    show "ids_in_range (length (mV ?h ! (i + 1))) (mAdj ?h ! (i + 1))"
      using w(1) new by simp
    show "no_self_loops (length (mV ?h ! (i + 1))) (mAdj ?h ! (i + 1))"
      using w(2) new by simp
    show "length (mV ?h ! (i + 1)) < 2 ^ 32" using w(3) wf(3) new by simp
    show "length (mA ?h ! (i + 1)) = length (mV ?h ! (i + 1))" using w(4) new by simp
    show "sum_list (mA ?h ! l) = S" if "l \<le> i + 1" for l using that by (rule a)
    show "mA ?h ! (l + 1) ! v = parents_area (mA ?h ! l) (mToUpper ?h ! l) v"
      if "l < i + 1" "v < length (mV ?h ! (l + 1))" for l v
      using that by (rule p)
  qed
qed

lemma build_loop_inv:
  assumes "platform_ok P" and "build_inv S i h"
  shows "\<exists>j. build_inv S j (snd (build_loop P det rounds i h))"
  using assms(2)
proof (induction rounds arbitrary: i h)
  case 0
  then show ?case by auto
next
  case (Suc rounds)
  obtain adj_p c where
    r: "downsample_graph P (mAdj h ! i) (mV h ! i) (mN h ! i) (mA h ! i) det = (adj_p, c)"
    by (cases "downsample_graph P (mAdj h ! i) (mV h ! i) (mN h ! i) (mA h ! i) det") auto
  show ?case
  proof (cases "color_level P det adj_p (length (V_p c))")
    case (Inl e)
    then have "snd (build_loop P det (Suc rounds) i h) = h" using r by simp
    then show ?thesis using Suc.prems by auto
  next
    case (Inr ph)
    let ?h = "push_level adj_p c ph h"
    note n = build_inv_push [OF assms(1) Suc.prems r, of ph]
    show ?thesis
    proof (cases "length (mV ?h ! (length (mV ?h) - 1)) = 1")
      case True
      then have "snd (build_loop P det (Suc rounds) i h) = ?h"
        using r Inr by (simp add: Let_def)
      then show ?thesis using n by auto
    next
      case False
      then have "snd (build_loop P det (Suc rounds) i h)
          = snd (build_loop P det rounds (i + 1) ?h)"
        using r Inr by (simp add: Let_def)
      then show ?thesis using Suc.IH [OF n] by simp
    qed
  qed
qed

lemma build_inv_cong:
  assumes "build_inv S i h" and "mAdj h' = mAdj h" and "mV h' = mV h" and "mA h' = mA h"
    and "mToUpper h' = mToUpper h"
  shows "build_inv S i h'"
  using assms by (simp add: build_inv_def)

lemma build_inv_result:
  assumes "platform_ok P" and "build_inv S 0 h"
  shows "\<exists>j. build_inv S j (snd (build P det h))"
proof (cases "color_level P det (mAdj h ! 0) (length (mV h ! 0))")
  case (Inl e)
  then have "snd (build P det h) = h" by (simp add: build_def)
  then show ?thesis using assms(2) by auto
next
  case (Inr phases)
  let ?h0 = "h\<lparr> mPhases := mPhases h @ [phases],
                      mTotalSize := length (mV h ! 0),
                      mCO := mCO h @ [[]], mCOw := mCOw h @ [[]],
                      mCQ := mCQ h @ [[]], mCQw := mCQw h @ [[]] \<rparr>"
  have "build_inv S 0 ?h0" using assms(2) by (rule build_inv_cong) simp_all
  then obtain j where j: "build_inv S j (snd (build_loop P det (MAX_DEPTH P) 0 ?h0))"
    using build_loop_inv [OF assms(1)] by blast
  obtain res h1 where b: "build_loop P det (MAX_DEPTH P) 0 ?h0 = (res, h1)"
    by (cases "build_loop P det (MAX_DEPTH P) 0 ?h0") auto
  have j1: "build_inv S j h1" using j b by simp
  show ?thesis
  proof (cases res)
    case (Inl e)
    then have "snd (build P det h) = h1" using \<open>color_level _ _ _ _ = Inr phases\<close> b
      by (simp add: build_def Let_def)
    then show ?thesis using j1 by auto
  next
    case (Inr u)
    then have "snd (build P det h) = h1\<lparr> mIterationsQ := - 1, mIterationsO := - 1,
                              mFrozenQ := False, mFrozenO := False \<rparr>"
      using \<open>color_level _ _ _ _ = Inr phases\<close> b by (simp add: build_def Let_def)
    moreover have "build_inv S j (h1\<lparr> mIterationsQ := - 1, mIterationsO := - 1,
                              mFrozenQ := False, mFrozenO := False \<rparr>)"
      using j1 by (rule build_inv_cong) simp_all
    ultimately show ?thesis by auto
  qed
qed

text \<open>
  C7.  Let \<^verbatim>\<open>build\<close> run on a hierarchy that holds level 0 only, a well-formed one (its
  adjacency names vertices, has no self-loop and fewer than \<open>2\<^sup>3\<^sup>2\<close> links; one area per
  vertex).  Whether it returns or throws, the hierarchy it leaves has at least one level,
  one area array per level, and the areas of every level sum to the total area of
  level 0; and the area of every coarse vertex is the area of its parent when the second
  parent is \<^verbatim>\<open>INVALID\<close>, and the sum of the areas of its two parents otherwise.
\<close>

theorem area_conserved:
  assumes "platform_ok P"
    and "length (mAdj h) = 1" and "length (mV h) = 1" and "length (mA h) = 1"
    and "length (mToUpper h) = 0"
    and "ids_in_range (length (mV h ! 0)) (mAdj h ! 0)"
    and "no_self_loops (length (mV h ! 0)) (mAdj h ! 0)"
    and "length (mV h ! 0) < 2 ^ 32" and "length (mA h ! 0) = length (mV h ! 0)"
    and h': "h' = snd (build P deterministic h)"
  shows "1 \<le> levels h' \<and> length (mA h') = levels h' \<and>
         length (mToUpper h') + 1 = levels h' \<and>
         (\<forall>l < levels h'. sum_list (mA h' ! l) = sum_list (mA h ! 0)) \<and>
         (\<forall>l. l + 1 < levels h' \<longrightarrow> (\<forall>v < size_of h' (l + 1).
            mA h' ! (l + 1) ! v =
              (if snd (mToUpper h' ! l ! v) = INVALID then mA h' ! l ! fst (mToUpper h' ! l ! v)
               else mA h' ! l ! fst (mToUpper h' ! l ! v)
                  + mA h' ! l ! snd (mToUpper h' ! l ! v))))"
proof -
  have "build_inv (sum_list (mA h ! 0)) 0 h"
    using assms(2-9) by (simp add: build_inv_def)
  then obtain j where j: "build_inv (sum_list (mA h ! 0)) j h'"
    using build_inv_result [OF assms(1)] h' by blast
  have len: "length (mV h') = j + 1" "length (mA h') = j + 1" "length (mToUpper h') = j"
    and area: "\<forall>l\<le>j. sum_list (mA h' ! l) = sum_list (mA h ! 0)"
    and par: "\<forall>l<j. \<forall>v<length (mV h' ! (l + 1)).
        mA h' ! (l + 1) ! v = parents_area (mA h' ! l) (mToUpper h' ! l) v"
    using j by (simp_all add: build_inv_def)
  show ?thesis
  proof (intro conjI allI impI)
    show "1 \<le> levels h'" "length (mA h') = levels h'" "length (mToUpper h') + 1 = levels h'"
      using len by (simp_all add: levels_def)
    show "sum_list (mA h' ! l) = sum_list (mA h ! 0)" if "l < levels h'" for l
      using that area len by (simp add: levels_def)
    show "mA h' ! (l + 1) ! v =
              (if snd (mToUpper h' ! l ! v) = INVALID then mA h' ! l ! fst (mToUpper h' ! l ! v)
               else mA h' ! l ! fst (mToUpper h' ! l ! v)
                  + mA h' ! l ! snd (mToUpper h' ! l ! v))"
      if "l + 1 < levels h'" "v < size_of h' (l + 1)" for l v
    proof -
      have "l < j" "v < length (mV h' ! (l + 1))"
        using that len by (simp_all add: levels_def size_of_def)
      then have "mA h' ! (l + 1) ! v = parents_area (mA h' ! l) (mToUpper h' ! l) v"
        using par by blast
      then show ?thesis by (simp add: parents_area_def)
    qed
  qed
qed

lemma sqrt_9: "sqrt 9 = 3"
  using real_sqrt_abs [of 3] by simp

lemma duo_sorted:
  "sort_entries test_platform True
     (make_entries [[Link 1 2], [Link 0 2]] [(0, 0, 1), (0, 0, 1)] [2, 1] 2) =
     [(0, 1, Finite 2), (1, 0, Finite 2)]"
  by (simp add: sort_entries_def make_entries_def nLinks_def score_def float_div_def
      float_mul_def Let_def ent_order_def upt_conv_Cons)

lemma duo_matching:
  "matching (sort_entries test_platform True
       (make_entries [[Link 1 2], [Link 0 2]] [(0, 0, 1), (0, 0, 1)] [2, 1]
          (length [(1 / 2, 0, 0), (0, 1, 0 :: real)])))
     (replicate (length [(1 / 2, 0, 0), (0, 1, 0 :: real)]) False) []
   = ([True, True], [(0, 1, Finite 2)])"
proof -
  have l: "length [(1 / 2, 0, 0), (0, 1, 0 :: real)] = 2" by simp
  show ?thesis unfolding l duo_sorted by (simp add: ent_i_def ent_j_def replicate_2)
qed

lemma duo_arrays:
  "downsample_arrays test_platform [[Link 1 2], [Link 0 2]] [(1 / 2, 0, 0), (0, 1, 0)]
     [(0, 0, 1), (0, 0, 1)] [2, 1] True =
      \<lparr> V_p = [(1 / 3, 1 / 3, 0)], N_p = [(0, 0, 1)], A_p = [3],
        to_upper = [(0, 1)], to_lower = [0, 0] \<rparr>"
  unfolding downsample_arrays_unfold [OF duo_matching]
  by (simp add: allocate_def collapse_pair_def copy_uncollapsed_def sub_u32_def
      ent_i_def ent_j_def ent_order_def norm3_def squaredNorm_def Let_def test_platform_def
      upt_conv_Cons UnitX_def Zero3_def vertex_order_def INVALID_def replicate_2 sqrt_9)

lemma duo_downsampled:
  "downsample_graph test_platform [[Link 1 2], [Link 0 2]] [(1 / 2, 0, 0), (0, 1, 0)]
     [(0, 0, 1), (0, 0, 1)] [2, 1] True =
     ([[]],
      \<lparr> V_p = [(1 / 3, 1 / 3, 0)], N_p = [(0, 0, 1)], A_p = [3],
        to_upper = [(0, 1)], to_lower = [0, 0] \<rparr>)"
  unfolding downsample_graph_def duo_arrays
  by (simp add: Let_def coarse_row_def gather_def sort_links_def INVALID_def)

lemma build_loop_step:
  assumes "0 < rounds"
    and "downsample_graph P (mAdj h ! i) (mV h ! i) (mN h ! i) (mA h ! i) True = (adj_p, c)"
    and "h' = push_level adj_p c
       (generate_graph_coloring_deterministic adj_p (length (V_p c)) (shuffle P (length (V_p c))))
       h"
  shows "build_loop P True rounds i h =
     (if length (mV h' ! (length (mV h') - 1)) = 1 then (Inr (), h')
      else build_loop P True (rounds - 1) (i + 1) h')"
  using assms by (cases rounds) (simp_all add: color_level_def Let_def)

lemma tri_built:
  "mA (snd (build test_platform True tri_hierarchy)) = [[1, 1, 1], [2, 1], [3]]"
  "mToUpper (snd (build test_platform True tri_hierarchy)) = [[(0, 1), (2, INVALID)], [(0, 1)]]"
  "levels (snd (build test_platform True tri_hierarchy)) = 3"
proof -
  let ?c1 = "\<lparr> V_p = [(1 / 2, 0, 0), (0, 1, 0)], N_p = [(0, 0, 1), (0, 0, 1)], A_p = [2, 1],
        to_upper = [(0, 1), (2, INVALID)], to_lower = [0, 0, 1] \<rparr>"
  let ?c2 = "\<lparr> V_p = [(1 / 3, 1 / 3, 0)], N_p = [(0, 0, 1)], A_p = [3],
        to_upper = [(0, 1)], to_lower = [0, 0] \<rparr>"
  define h0 where "h0 = tri_hierarchy\<lparr> mPhases := mPhases tri_hierarchy @
         [generate_graph_coloring_deterministic tri_adj (length tri_V)
            (shuffle test_platform (length tri_V))],
       mTotalSize := length tri_V,
       mCO := mCO tri_hierarchy @ [[]], mCOw := mCOw tri_hierarchy @ [[]],
       mCQ := mCQ tri_hierarchy @ [[]], mCQw := mCQw tri_hierarchy @ [[]] \<rparr>"
  define h1 where "h1 = push_level [[Link 1 2], [Link 0 2]] ?c1
       (generate_graph_coloring_deterministic [[Link 1 2], [Link 0 2]] (length (V_p ?c1))
          (shuffle test_platform (length (V_p ?c1)))) h0"
  define h2 where "h2 = push_level [[]] ?c2
       (generate_graph_coloring_deterministic [[]] (length (V_p ?c2))
          (shuffle test_platform (length (V_p ?c2)))) h1"
  have f0: "mAdj h0 = [tri_adj]" "mV h0 = [tri_V]" "mN h0 = [tri_N]" "mA h0 = [tri_A]"
    "mToUpper h0 = []"
    by (simp_all add: h0_def tri_hierarchy_def MultiResolutionHierarchy_def)
  have f1: "mAdj h1 = [tri_adj, [[Link 1 2], [Link 0 2]]]"
    "mV h1 = [tri_V, [(1 / 2, 0, 0), (0, 1, 0)]]"
    "mN h1 = [tri_N, [(0, 0, 1), (0, 0, 1)]]" "mA h1 = [tri_A, [2, 1]]"
    "mToUpper h1 = [[(0, 1), (2, INVALID)]]"
    by (simp_all add: h1_def push_level_def f0)
  have f2: "mV h2 = [tri_V, [(1 / 2, 0, 0), (0, 1, 0)], [(1 / 3, 1 / 3, 0)]]"
    "mA h2 = [tri_A, [2, 1], [3]]"
    "mToUpper h2 = [[(0, 1), (2, INVALID)], [(0, 1)]]"
    by (simp_all add: h2_def push_level_def f1)
  have d1: "downsample_graph test_platform (mAdj h0 ! 0) (mV h0 ! 0) (mN h0 ! 0) (mA h0 ! 0) True
      = ([[Link 1 2], [Link 0 2]], ?c1)"
    using tri_downsampled by (simp add: f0)
  have d2: "downsample_graph test_platform (mAdj h1 ! (0 + 1)) (mV h1 ! (0 + 1))
      (mN h1 ! (0 + 1)) (mA h1 ! (0 + 1)) True = ([[]], ?c2)"
    using duo_downsampled by (simp add: f1)
  have md: "MAX_DEPTH test_platform = 25" by (simp add: test_platform_def)
  have "build_loop test_platform True 25 0 h0 = build_loop test_platform True (25 - 1) (0 + 1) h1"
    using build_loop_step [OF _ d1 h1_def, of 25] by (simp add: f1)
  also have "\<dots> = (Inr (), h2)"
    using build_loop_step [OF _ d2 h2_def, of "25 - 1"] by (simp add: f2)
  finally have "build_loop test_platform True (MAX_DEPTH test_platform) 0 h0 = (Inr (), h2)"
    by (simp add: md)
  then have "snd (build test_platform True tri_hierarchy)
      = h2\<lparr> mIterationsQ := - 1, mIterationsO := - 1, mFrozenQ := False, mFrozenO := False \<rparr>"
    by (simp add: build_def color_level_def Let_def h0_def tri_hierarchy_def
        MultiResolutionHierarchy_def)
  then show "mA (snd (build test_platform True tri_hierarchy)) = [[1, 1, 1], [2, 1], [3]]"
    "mToUpper (snd (build test_platform True tri_hierarchy)) = [[(0, 1), (2, INVALID)], [(0, 1)]]"
    "levels (snd (build test_platform True tri_hierarchy)) = 3"
    by (simp_all add: f2 levels_def tri_A_def)
qed

theorem area_conserved_witness:
  "platform_ok test_platform \<and>
   length (mAdj tri_hierarchy) = 1 \<and> length (mV tri_hierarchy) = 1 \<and>
   length (mA tri_hierarchy) = 1 \<and> length (mToUpper tri_hierarchy) = 0 \<and>
   ids_in_range (length (mV tri_hierarchy ! 0)) (mAdj tri_hierarchy ! 0) \<and>
   no_self_loops (length (mV tri_hierarchy ! 0)) (mAdj tri_hierarchy ! 0) \<and>
   length (mV tri_hierarchy ! 0) < 2 ^ 32 \<and>
   length (mA tri_hierarchy ! 0) = length (mV tri_hierarchy ! 0) \<and>
   levels (snd (build test_platform True tri_hierarchy)) = 3 \<and>
   mA (snd (build test_platform True tri_hierarchy)) = [[1, 1, 1], [2, 1], [3]] \<and>
   mToUpper (snd (build test_platform True tri_hierarchy)) = [[(0, 1), (2, INVALID)], [(0, 1)]] \<and>
   sum_list (mA (snd (build test_platform True tri_hierarchy)) ! 2)
     = sum_list (mA tri_hierarchy ! 0)"
proof -
  let ?h = "snd (build test_platform True tri_hierarchy)"
  have f: "mAdj tri_hierarchy = [tri_adj]" "mV tri_hierarchy = [tri_V]"
    "mA tri_hierarchy = [tri_A]" "mToUpper tri_hierarchy = []"
    by (simp_all add: tri_hierarchy_def MultiResolutionHierarchy_def)
  have l: "length (mAdj tri_hierarchy) = 1" "length (mV tri_hierarchy) = 1"
    "length (mA tri_hierarchy) = 1" "length (mToUpper tri_hierarchy) = 0"
    by (simp_all add: f)
  have r: "ids_in_range (length (mV tri_hierarchy ! 0)) (mAdj tri_hierarchy ! 0)"
    using tri_in_range by (simp add: f)
  have s: "no_self_loops (length (mV tri_hierarchy ! 0)) (mAdj tri_hierarchy ! 0)"
    using tri_no_loops by (simp add: f)
  have n: "length (mV tri_hierarchy ! 0) < 2 ^ 32"
    "length (mA tri_hierarchy ! 0) = length (mV tri_hierarchy ! 0)"
    by (simp_all add: f tri_V_def tri_A_def)
  note t = area_conserved [OF test_platform_ok l r s n refl, of True]
  from t have "\<forall>l < levels ?h. sum_list (mA ?h ! l) = sum_list (mA tri_hierarchy ! 0)"
    by simp
  then have "sum_list (mA ?h ! 2) = sum_list (mA tri_hierarchy ! 0)"
    by (simp add: tri_built(3))
  then show ?thesis
    using test_platform_ok l r s n tri_built by simp
qed

end
